theory Spec2Isabelle
  imports Main "HOL-Library.Word"
begin

section \<open>The JNI bridge of OmniTAK Mobile (omnitak\_jni.cpp)\<close>

text \<open>
  The bridge keeps a process-wide table \<open>g_callbacks\<close> from connection identifiers to
  callback contexts, fills it from the native methods of \<open>OmniTAKNativeBridge\<close> and reads
  it in \<open>cot_callback_bridge\<close>, the C callback handed to the native core.

  The embedding passes the state of the bridge explicitly. The Java virtual machine and
  the native core (\<open>omnitak_*\<close>) are not part of the file: what they answer at each call
  is a parameter of the operation that makes the call. Every call the bridge makes to
  them, every log line, every access to the registry and every locking and unlocking of
  \<open>g_callbacks_mutex\<close> is appended to a trace, in the order of the source.

  Each operation runs to completion before the next one starts, so the mutex is free
  whenever an operation asks for it; in particular neither the Kotlin method that
  \<open>cot_callback_bridge\<close> calls nor a function of the core calls back into the bridge
  while it runs. Of the virtual machine the embedding assumes that
  \<open>NewGlobalRef\<close> succeeds, that a failed \<open>AttachCurrentThread\<close> leaves the thread
  detached and that \<open>DetachCurrentThread\<close> succeeds. Local references are not tracked:
  no property below depends on them.
\<close>

subsection \<open>Types\<close>

type_synonym uint64_t = "64 word"
type_synonym jlong = "64 word"
type_synonym jint = "32 word"
type_synonym int32_t = "32 word"

text \<open>
  \<open>JavaVM\<close> names a virtual machine, \<open>jobject\<close> a Java object (by identity), \<open>gref\<close> a
  global reference handed out by \<open>NewGlobalRef\<close>, \<open>JNIEnv\<close> the thread an interface
  pointer belongs to. A \<open>jstring\<close> is given by its characters in modified UTF-8, so that
  \<open>GetStringUTFChars\<close> and \<open>NewStringUTF\<close> do not change them. A pointer that may be
  null is an \<open>option\<close>.
\<close>

type_synonym JavaVM = nat
type_synonym jobject = nat
type_synonym gref = nat
type_synonym JNIEnv = nat
type_synonym jstring = string

record CallbackContext =
  jvm :: "JavaVM option"
  bridge_instance :: gref

datatype throwable = NoSuchMethodError | NoClassDefFoundError | Thrown string

datatype log_level = ANDROID_LOG_INFO | ANDROID_LOG_ERROR | ANDROID_LOG_DEBUG

datatype log_arg = Num int | Str string

text \<open>The calls into the native core, with the arguments the bridge passes.\<close>

datatype core_call =
    omnitak_init
  | omnitak_shutdown
  | omnitak_connect string "16 word" int32_t int32_t bool bool bool
  | omnitak_disconnect uint64_t
  | omnitak_send_cot uint64_t string
  | omnitak_register_callback uint64_t
  | omnitak_unregister_callback uint64_t
  | omnitak_get_status uint64_t
  | omnitak_version

datatype event =
    Log log_level string "log_arg list"
  | NewGlobalRefEv gref jobject
  | DeleteGlobalRefEv gref
  | StoreEv uint64_t CallbackContext
  | EraseEv uint64_t
  | ClearEv
  | LookupEv uint64_t "CallbackContext option"
  | ScanEv
  | AcquireEv
  | ReleaseEv
  | AttachEv JNIEnv
  | DetachEv JNIEnv
  | CallVoidMethodEv jobject string string jlong "jstring option"
  | ExceptionDescribeEv throwable
  | NewObjectEv string string jint jlong jlong jint
  | CoreEv core_call

record jni_state =
  g_callbacks :: "(uint64_t \<times> CallbackContext) list"
  g_jvm :: "JavaVM option"
  global_refs :: "jobject option list"
  attached :: "JNIEnv set"
  pending :: "JNIEnv \<Rightarrow> throwable option"
  trace :: "event list"

text \<open>
  The state when the library has just been mapped: \<open>g_callbacks\<close> empty, \<open>g_jvm\<close> null,
  no global reference, the threads in \<open>ts\<close> attached to the virtual machine.
\<close>

definition initial_state :: "JNIEnv set \<Rightarrow> jni_state" where
  "initial_state ts =
     \<lparr>g_callbacks = [], g_jvm = None, global_refs = [], attached = ts,
      pending = (\<lambda>_. None), trace = []\<rparr>"

text \<open>Faults that end the process: the source dereferences without a check.\<close>

datatype fault = NullJavaVM | InvalidGlobalRef

subsection \<open>\<open>std::map<uint64_t, CallbackContext>\<close>\<close>

text \<open>
  The map is an association list in ascending key order, one pair per key:
  \<open>map_find\<close> is \<open>find\<close>, \<open>map_assign\<close> is \<open>m[k] = v\<close>, \<open>map_erase\<close> is \<open>erase\<close> of the
  iterator \<open>find\<close> returned, iteration is the list order.
\<close>

fun map_find :: "('k \<times> 'v) list \<Rightarrow> 'k \<Rightarrow> 'v option" where
  "map_find [] k = None"
| "map_find ((k', v) # m) k = (if k' = k then Some v else map_find m k)"

fun map_assign :: "('k::linorder \<times> 'v) list \<Rightarrow> 'k \<Rightarrow> 'v \<Rightarrow> ('k \<times> 'v) list" where
  "map_assign [] k v = [(k, v)]"
| "map_assign ((k', v') # m) k v =
     (if k < k' then (k, v) # (k', v') # m
      else if k = k' then (k, v) # m
      else (k', v') # map_assign m k v)"

fun map_erase :: "('k \<times> 'v) list \<Rightarrow> 'k \<Rightarrow> ('k \<times> 'v) list" where
  "map_erase [] k = []"
| "map_erase ((k', v) # m) k = (if k' = k then m else (k', v) # map_erase m k)"

subsection \<open>Logging and the JNI functions the bridge calls\<close>

definition emit :: "event \<Rightarrow> jni_state \<Rightarrow> jni_state" where
  "emit ev s = s\<lparr>trace := trace s @ [ev]\<rparr>"

definition LOGI :: "string \<Rightarrow> log_arg list \<Rightarrow> jni_state \<Rightarrow> jni_state" where
  "LOGI fmt args = emit (Log ANDROID_LOG_INFO fmt args)"

definition LOGE :: "string \<Rightarrow> log_arg list \<Rightarrow> jni_state \<Rightarrow> jni_state" where
  "LOGE fmt args = emit (Log ANDROID_LOG_ERROR fmt args)"

definition LOGD :: "string \<Rightarrow> log_arg list \<Rightarrow> jni_state \<Rightarrow> jni_state" where
  "LOGD fmt args = emit (Log ANDROID_LOG_DEBUG fmt args)"

definition JNI_OK :: int where "JNI_OK = 0"
definition JNI_EDETACHED :: int where "JNI_EDETACHED = - 2"
definition JNI_EVERSION :: int where "JNI_EVERSION = - 3"

text \<open>
  What the virtual machine answers during one run of \<open>cot_callback_bridge\<close>: whether it
  supports JNI 1.6, the status of \<open>AttachCurrentThread\<close>, whether \<open>GetMethodID\<close> finds
  \<open>onCotReceived\<close>, and what the Kotlin method throws, if anything.
\<close>

record vm_answers =
  version_supported :: bool
  attach_status :: int
  method_found :: bool
  callback_throws :: "throwable option"

text \<open>
  \<open>GetEnv\<close>: \<open>JNI_EDETACHED\<close> for a thread that is not attached, \<open>JNI_EVERSION\<close> for a
  version the machine does not support, \<open>JNI_OK\<close> otherwise.
\<close>

definition GetEnv :: "JNIEnv \<Rightarrow> vm_answers \<Rightarrow> jni_state \<Rightarrow> int" where
  "GetEnv t a s =
     (if t \<notin> attached s then JNI_EDETACHED
      else if \<not> version_supported a then JNI_EVERSION
      else JNI_OK)"

definition AttachCurrentThread :: "JNIEnv \<Rightarrow> jni_state \<Rightarrow> jni_state" where
  "AttachCurrentThread t s = emit (AttachEv t) (s\<lparr>attached := insert t (attached s)\<rparr>)"

text \<open>
  \<open>DetachCurrentThread\<close> of a thread with no Java frame on its stack succeeds; the
  machine disposes of an exception still pending on the thread.
\<close>

definition DetachCurrentThread :: "JNIEnv \<Rightarrow> jni_state \<Rightarrow> jni_state" where
  "DetachCurrentThread t s =
     emit (DetachEv t) (s\<lparr>attached := attached s - {t}, pending := (pending s)(t := None)\<rparr>)"

text \<open>
  Global references: the handle of a new reference is the next free index of the table;
  a deleted reference leaves its slot empty and its handle is not reused.
\<close>

definition deref :: "jni_state \<Rightarrow> gref \<Rightarrow> jobject option" where
  "deref s r = (if r < length (global_refs s) then global_refs s ! r else None)"

definition NewGlobalRef :: "jobject \<Rightarrow> jni_state \<Rightarrow> gref \<times> jni_state" where
  "NewGlobalRef obj s =
     (let r = length (global_refs s)
      in (r, emit (NewGlobalRefEv r obj) (s\<lparr>global_refs := global_refs s @ [Some obj]\<rparr>)))"

definition DeleteGlobalRef :: "gref \<Rightarrow> jni_state \<Rightarrow> jni_state" where
  "DeleteGlobalRef r s =
     emit (DeleteGlobalRefEv r) (s\<lparr>global_refs := (global_refs s)[r := None]\<rparr>)"

text \<open>
  \<open>CallVoidMethod\<close> runs the Java method on the object: the call is recorded, and what
  the method throws becomes the thread's pending exception.
\<close>

definition CallVoidMethod ::
  "JNIEnv \<Rightarrow> vm_answers \<Rightarrow> jobject \<Rightarrow> string \<Rightarrow> string \<Rightarrow> jlong \<Rightarrow> jstring option
     \<Rightarrow> jni_state \<Rightarrow> jni_state" where
  "CallVoidMethod t a obj name sig arg1 arg2 s =
     (let s1 = emit (CallVoidMethodEv obj name sig arg1 arg2) s
      in case callback_throws a of
           None \<Rightarrow> s1
         | Some x \<Rightarrow> s1\<lparr>pending := (pending s1)(t := Some x)\<rparr>)"

definition ExceptionCheck :: "JNIEnv \<Rightarrow> jni_state \<Rightarrow> bool" where
  "ExceptionCheck t s = (pending s t \<noteq> None)"

definition ExceptionDescribe :: "JNIEnv \<Rightarrow> jni_state \<Rightarrow> jni_state" where
  "ExceptionDescribe t s =
     (case pending s t of None \<Rightarrow> s | Some x \<Rightarrow> emit (ExceptionDescribeEv x) s)"

definition ExceptionClear :: "JNIEnv \<Rightarrow> jni_state \<Rightarrow> jni_state" where
  "ExceptionClear t s = s\<lparr>pending := (pending s)(t := None)\<rparr>"

subsection \<open>String helpers\<close>

text \<open>\<open>jstring_to_string\<close>: the empty string for a null \<open>jstring\<close>, its characters otherwise.\<close>

definition jstring_to_string :: "jstring option \<Rightarrow> string" where
  "jstring_to_string jstr = (case jstr of None \<Rightarrow> [] | Some chars \<Rightarrow> chars)"

text \<open>\<open>string_to_jstring\<close>: null for a null pointer, \<open>NewStringUTF\<close> of the characters otherwise.\<close>

definition string_to_jstring :: "string option \<Rightarrow> jstring option" where
  "string_to_jstring str = (case str of None \<Rightarrow> None | Some chars \<Rightarrow> Some chars)"

subsection \<open>\<open>cot_callback_bridge\<close>\<close>

text \<open>
  Lines 88 to 129 of the source, once the thread has an interface pointer:
  \<open>GetObjectClass\<close> and \<open>GetMethodID\<close>, the call of \<open>onCotReceived\<close>, the exception
  check, and the detach when this run attached the thread. \<open>GetObjectClass\<close> on a
  deleted reference ends the process; a failed \<open>GetMethodID\<close> leaves
  \<open>NoSuchMethodError\<close> pending, and the source does not clear it.
\<close>

definition deliver ::
  "JNIEnv \<Rightarrow> vm_answers \<Rightarrow> CallbackContext \<Rightarrow> uint64_t \<Rightarrow> string option \<Rightarrow> bool
     \<Rightarrow> jni_state \<Rightarrow> fault + jni_state" where
  "deliver env a context connection_id cot_xml needDetach s =
     (case deref s (bridge_instance context) of
        None \<Rightarrow> Inl InvalidGlobalRef
      | Some target \<Rightarrow>
          if \<not> method_found a then
            (let s1 = s\<lparr>pending := (pending s)(env := Some NoSuchMethodError)\<rparr>;
                 s2 = LOGE ''Failed to find onCotReceived method'' [] s1
             in Inr (if needDetach then DetachCurrentThread env s2 else s2))
          else
            (let jCotXml = string_to_jstring cot_xml;
                 s1 = CallVoidMethod env a target ''onCotReceived'' ''(JLjava/lang/String;)V''
                        connection_id jCotXml s;
                 s2 = (if ExceptionCheck env s1
                       then ExceptionClear env (ExceptionDescribe env
                              (LOGE ''Exception occurred in onCotReceived'' [] s1))
                       else s1)
             in Inr (if needDetach then DetachCurrentThread env s2 else s2)))"

text \<open>
  The callback itself, run on thread \<open>t\<close>. \<open>user_data\<close> is not read by the source and is
  left out. \<open>AcquireEv\<close> and \<open>ReleaseEv\<close> are the constructor and the destructor of the
  \<open>std::lock_guard\<close> on \<open>g_callbacks_mutex\<close>, \<open>LookupEv\<close> is \<open>find\<close> with what it found
  (the value copied into \<open>context\<close>). A null \<open>context.jvm\<close> ends the process at
  \<open>GetEnv\<close>.
\<close>

definition cot_callback_bridge ::
  "JNIEnv \<Rightarrow> vm_answers \<Rightarrow> uint64_t \<Rightarrow> string option \<Rightarrow> jni_state \<Rightarrow> fault + jni_state" where
  "cot_callback_bridge t a connection_id cot_xml s0 =
     (let s1 = LOGD ''CoT callback triggered for connection %llu'' [Num (uint connection_id)] s0;
          s2 = emit AcquireEv s1;
          it = map_find (g_callbacks s2) connection_id;
          s3 = emit (LookupEv connection_id it) s2
      in case it of
           None \<Rightarrow>
             Inr (emit ReleaseEv
                    (LOGE ''No callback context found for connection %llu''
                       [Num (uint connection_id)] s3))
         | Some context \<Rightarrow>
             (case jvm context of
                None \<Rightarrow> Inl NullJavaVM
              | Some vm \<Rightarrow>
                  (let s = emit ReleaseEv s3;
                       getEnvStat = GetEnv t a s
                   in if getEnvStat = JNI_EDETACHED then
                        (let s1 = LOGD ''Attaching to JVM for callback'' [] s
                         in if attach_status a \<noteq> 0
                            then Inr (LOGE ''Failed to attach to JVM'' [] s1)
                            else deliver t a context connection_id cot_xml True
                                   (AttachCurrentThread t s1))
                      else if getEnvStat \<noteq> JNI_OK then
                        Inr (LOGE ''Failed to get JNI environment'' [] s)
                      else deliver t a context connection_id cot_xml False s)))"

subsection \<open>The native methods\<close>

definition JNI_VERSION_1_6 :: jint where "JNI_VERSION_1_6 = 0x00010006"

definition JNI_OnLoad :: "JavaVM \<Rightarrow> jni_state \<Rightarrow> jint \<times> jni_state" where
  "JNI_OnLoad vm s = (JNI_VERSION_1_6, (LOGI ''JNI_OnLoad called'' [] s)\<lparr>g_jvm := Some vm\<rparr>)"

definition nativeInit :: "int32_t \<Rightarrow> jni_state \<Rightarrow> jint \<times> jni_state" where
  "nativeInit result s =
     (let s1 = LOGI ''nativeInit called'' [] s;
          s2 = emit (CoreEv omnitak_init) s1;
          s3 = LOGI ''omnitak_init returned %d'' [Num (sint result)] s2
      in (result, s3))"

definition nativeShutdown :: "jni_state \<Rightarrow> jni_state" where
  "nativeShutdown s =
     (let s1 = emit ScanEv (emit AcquireEv (LOGI ''nativeShutdown called'' [] s));
          s2 = foldl (\<lambda>st pair. DeleteGlobalRef (bridge_instance (snd pair)) st) s1 (g_callbacks s1);
          s3 = emit ReleaseEv (emit ClearEv (s2\<lparr>g_callbacks := []\<rparr>));
          s4 = emit (CoreEv omnitak_shutdown) s3
      in LOGI ''Shutdown complete'' [] s4)"

text \<open>
  \<open>nativeConnect\<close>: the three PEM pointers are taken from temporaries that are gone
  when \<open>omnitak_connect\<close> runs, so the trace records only whether each is non-null.
\<close>

definition nativeConnect ::
  "jstring option \<Rightarrow> jint \<Rightarrow> jint \<Rightarrow> bool \<Rightarrow> jstring option \<Rightarrow> jstring option \<Rightarrow> jstring option
     \<Rightarrow> uint64_t \<Rightarrow> jni_state \<Rightarrow> jlong \<times> jni_state" where
  "nativeConnect host port protocol useTls certPem keyPem caPem connection_id s =
     (let s1 = LOGI ''nativeConnect called'' [] s;
          hostStr = jstring_to_string host;
          s2 = LOGI ''Connecting to %s:%d (protocol=%d, tls=%d)''
                 [Str hostStr, Num (sint port), Num (sint protocol), Num (if useTls then 1 else 0)] s1;
          s3 = emit (CoreEv (omnitak_connect hostStr (ucast port) protocol (if useTls then 1 else 0)
                      (certPem \<noteq> None) (keyPem \<noteq> None) (caPem \<noteq> None))) s2;
          s4 = (if connection_id > 0
                then LOGI ''Connected successfully: %llu'' [Num (uint connection_id)] s3
                else LOGE ''Connection failed'' [] s3)
      in (connection_id, s4))"

definition nativeDisconnect :: "jlong \<Rightarrow> int32_t \<Rightarrow> jni_state \<Rightarrow> jint \<times> jni_state" where
  "nativeDisconnect connectionId result s =
     (let s1 = LOGI ''nativeDisconnect called for connection %lld'' [Num (sint connectionId)] s;
          s2 = emit AcquireEv (emit (CoreEv (omnitak_disconnect connectionId)) s1);
          it = map_find (g_callbacks s2) connectionId;
          s2' = emit (LookupEv connectionId it) s2;
          s3 = (case it of
                  None \<Rightarrow> s2'
                | Some context \<Rightarrow>
                    (let s' = DeleteGlobalRef (bridge_instance context) s2';
                         s'' = emit (EraseEv connectionId)
                                 (s'\<lparr>g_callbacks := map_erase (g_callbacks s') connectionId\<rparr>)
                     in LOGI ''Callback cleaned up for connection %lld''
                          [Num (sint connectionId)] s''))
      in (result, emit ReleaseEv s3))"

definition nativeSendCot :: "jlong \<Rightarrow> jstring option \<Rightarrow> int32_t \<Rightarrow> jni_state \<Rightarrow> jint \<times> jni_state" where
  "nativeSendCot connectionId cotXml result s =
     (let cotXmlStr = jstring_to_string cotXml;
          s1 = LOGD ''Sending CoT on connection %lld'' [Num (sint connectionId)] s;
          s2 = emit (CoreEv (omnitak_send_cot connectionId cotXmlStr)) s1;
          s3 = (if result \<noteq> 0 then LOGE ''Failed to send CoT: %d'' [Num (sint result)] s2 else s2)
      in (result, s3))"

definition nativeRegisterCallback ::
  "jobject \<Rightarrow> jlong \<Rightarrow> int32_t \<Rightarrow> jni_state \<Rightarrow> jint \<times> jni_state" where
  "nativeRegisterCallback thiz connectionId result s =
     (let s1 = LOGI ''nativeRegisterCallback called for connection %lld''
                 [Num (sint connectionId)] s;
          (globalRef, s2) = NewGlobalRef thiz (emit AcquireEv s1);
          context = \<lparr>jvm = g_jvm s2, bridge_instance = globalRef\<rparr>;
          s3 = emit (StoreEv connectionId context)
                 (s2\<lparr>g_callbacks := map_assign (g_callbacks s2) connectionId context\<rparr>);
          s4 = emit (CoreEv (omnitak_register_callback connectionId)) (emit ReleaseEv s3);
          s5 = (if result = 0
                then LOGI ''Callback registered successfully'' [] s4
                else LOGE ''Failed to register callback: %d'' [Num (sint result)] s4)
      in (result, s5))"

definition nativeUnregisterCallback :: "jlong \<Rightarrow> int32_t \<Rightarrow> jni_state \<Rightarrow> jint \<times> jni_state" where
  "nativeUnregisterCallback connectionId result s =
     (let s1 = LOGI ''nativeUnregisterCallback called for connection %lld''
                 [Num (sint connectionId)] s;
          s2 = emit AcquireEv (emit (CoreEv (omnitak_unregister_callback connectionId)) s1);
          it = map_find (g_callbacks s2) connectionId;
          s2' = emit (LookupEv connectionId it) s2;
          s3 = (case it of
                  None \<Rightarrow> s2'
                | Some context \<Rightarrow>
                    (let s' = DeleteGlobalRef (bridge_instance context) s2'
                     in emit (EraseEv connectionId)
                          (s'\<lparr>g_callbacks := map_erase (g_callbacks s') connectionId\<rparr>)))
      in (result, emit ReleaseEv s3))"

text \<open>
  Modelled from the spec: the header \<open>omnitak_mobile.h\<close> that declares
  \<open>ConnectionStatus\<close> is not among the sources; the spec lists its fields as
  \<open>is_connected\<close>, \<open>messages_sent\<close>, \<open>messages_received\<close>, \<open>last_error_code\<close>. They are
  kept here at the widths \<open>nativeGetStatus\<close> casts them to.
\<close>

record ConnectionStatus =
  is_connected :: jint
  messages_sent :: jlong
  messages_received :: jlong
  last_error_code :: jint

text \<open>
  What the core and the virtual machine answer during \<open>nativeGetStatus\<close>: the status
  code and the structure \<open>omnitak_get_status\<close> fills, whether \<open>FindClass\<close> and
  \<open>GetMethodID\<close> succeed, and the object \<open>NewObject\<close> returns.
\<close>

record status_answers =
  status_result :: int32_t
  status :: ConnectionStatus
  class_found :: bool
  constructor_found :: bool
  new_object :: "jobject option"

definition nativeGetStatus ::
  "JNIEnv \<Rightarrow> jlong \<Rightarrow> status_answers \<Rightarrow> jni_state \<Rightarrow> jobject option \<times> jni_state" where
  "nativeGetStatus env connectionId a s =
     (let s1 = LOGD ''nativeGetStatus called for connection %lld'' [Num (sint connectionId)] s;
          s2 = emit (CoreEv (omnitak_get_status connectionId)) s1
      in if status_result a \<noteq> 0 then
           (None, LOGE ''Failed to get status: %d'' [Num (sint (status_result a))] s2)
         else if \<not> class_found a then
           (None, LOGE ''Failed to find ConnectionStatusNative class'' []
                    (s2\<lparr>pending := (pending s2)(env := Some NoClassDefFoundError)\<rparr>))
         else if \<not> constructor_found a then
           (None, LOGE ''Failed to find ConnectionStatusNative constructor'' []
                    (s2\<lparr>pending := (pending s2)(env := Some NoSuchMethodError)\<rparr>))
         else
           (new_object a,
            emit (NewObjectEv
                    ''com/engindearing/omnitak/native/OmniTAKNativeBridge$ConnectionStatusNative''
                    ''(IJJI)V'' (is_connected (status a)) (messages_sent (status a))
                    (messages_received (status a)) (last_error_code (status a))) s2))"

text \<open>\<open>nativeVersion\<close>: \<open>version\<close> is the pointer \<open>omnitak_version\<close> returns.\<close>

definition nativeVersion :: "string option \<Rightarrow> jni_state \<Rightarrow> jstring option \<times> jni_state" where
  "nativeVersion version s =
     (let s1 = emit (CoreEv omnitak_version) s;
          s2 = LOGI ''Library version: %s''
                 [Str (case version of None \<Rightarrow> ''(null)'' | Some v \<Rightarrow> v)] s1
      in (string_to_jstring version, s2))"

subsection \<open>The interface as a whole\<close>

text \<open>
  One constructor per entry point of the file, carrying its arguments and the answers
  of the core and of the virtual machine; \<open>step\<close> runs it and keeps the state.
\<close>

datatype api_call =
    OnLoad JavaVM
  | Init int32_t
  | Shutdown
  | Connect "jstring option" jint jint bool "jstring option" "jstring option" "jstring option"
      uint64_t
  | Disconnect jlong int32_t
  | SendCot jlong "jstring option" int32_t
  | RegisterCallback jobject jlong int32_t
  | UnregisterCallback jlong int32_t
  | GetStatus JNIEnv jlong status_answers
  | Version "string option"
  | CotCallback JNIEnv vm_answers uint64_t "string option"

fun step :: "api_call \<Rightarrow> jni_state \<Rightarrow> fault + jni_state" where
  "step (OnLoad vm) s = Inr (snd (JNI_OnLoad vm s))"
| "step (Init r) s = Inr (snd (nativeInit r s))"
| "step Shutdown s = Inr (nativeShutdown s)"
| "step (Connect h p pr tls c k ca r) s = Inr (snd (nativeConnect h p pr tls c k ca r s))"
| "step (Disconnect i r) s = Inr (snd (nativeDisconnect i r s))"
| "step (SendCot i x r) s = Inr (snd (nativeSendCot i x r s))"
| "step (RegisterCallback thiz i r) s = Inr (snd (nativeRegisterCallback thiz i r s))"
| "step (UnregisterCallback i r) s = Inr (snd (nativeUnregisterCallback i r s))"
| "step (GetStatus env i a) s = Inr (snd (nativeGetStatus env i a s))"
| "step (Version v) s = Inr (snd (nativeVersion v s))"
| "step (CotCallback t a i x) s = cot_callback_bridge t a i x s"

text \<open>A run of calls stops at the first fault.\<close>

fun run :: "api_call list \<Rightarrow> jni_state \<Rightarrow> fault + jni_state" where
  "run [] s = Inr s"
| "run (c # cs) s = (case step c s of Inl f \<Rightarrow> Inl f | Inr s' \<Rightarrow> run cs s')"

subsection \<open>Reading the trace\<close>

text \<open>The events an operation added, and among events the calls into Java and the releases.\<close>

definition new_events :: "jni_state \<Rightarrow> jni_state \<Rightarrow> event list" where
  "new_events s s' = drop (length (trace s)) (trace s')"

fun is_invocation :: "event \<Rightarrow> bool" where
  "is_invocation (CallVoidMethodEv obj name sig a1 a2) = True"
| "is_invocation _ = False"

definition invocations :: "event list \<Rightarrow> event list" where
  "invocations evs = filter is_invocation evs"

fun released :: "event list \<Rightarrow> gref list" where
  "released [] = []"
| "released (DeleteGlobalRefEv r # evs) = r # released evs"
| "released (ev # evs) = released evs"

fun created :: "event list \<Rightarrow> (gref \<times> jobject) list" where
  "created [] = []"
| "created (NewGlobalRefEv r obj # evs) = (r, obj) # created evs"
| "created (ev # evs) = created evs"

text \<open>
  The calls into Java made by an operation that started in state \<open>s\<close> and returned; an
  operation that faulted counts for none, and its theorems say apart whether it returned.
\<close>

definition delivered :: "jni_state \<Rightarrow> fault + jni_state \<Rightarrow> event list" where
  "delivered s res = (case res of Inl f \<Rightarrow> [] | Inr s' \<Rightarrow> invocations (new_events s s'))"

fun is_attachment :: "event \<Rightarrow> bool" where
  "is_attachment (AttachEv t) = True"
| "is_attachment (DetachEv t) = True"
| "is_attachment _ = False"

text \<open>
  The lock discipline of a sequence of events, started with the mutex held or free:
  the mutex is locked only when free and unlocked only when held, the registry is
  accessed only while it is held, no thread is attached or detached and no Java method
  is called while it is held, and it is free at the end.
\<close>

fun is_lock_event :: "event \<Rightarrow> bool" where
  "is_lock_event AcquireEv = True"
| "is_lock_event ReleaseEv = True"
| "is_lock_event _ = False"

fun is_registry_access :: "event \<Rightarrow> bool" where
  "is_registry_access (LookupEv i found) = True"
| "is_registry_access (StoreEv i context) = True"
| "is_registry_access (EraseEv i) = True"
| "is_registry_access ClearEv = True"
| "is_registry_access ScanEv = True"
| "is_registry_access _ = False"

fun is_cross_runtime :: "event \<Rightarrow> bool" where
  "is_cross_runtime (AttachEv t) = True"
| "is_cross_runtime (CallVoidMethodEv obj name sig a1 a2) = True"
| "is_cross_runtime (DetachEv t) = True"
| "is_cross_runtime _ = False"

fun disciplined :: "bool \<Rightarrow> event list \<Rightarrow> bool" where
  "disciplined held [] = (\<not> held)"
| "disciplined held (AcquireEv # evs) = (\<not> held \<and> disciplined True evs)"
| "disciplined held (ReleaseEv # evs) = (held \<and> disciplined False evs)"
| "disciplined held (ev # evs) =
     (\<not> (is_registry_access ev \<and> \<not> held) \<and> \<not> (is_cross_runtime ev \<and> held) \<and>
      disciplined held evs)"

text \<open>
  The registry that the stores, erasures and clearings of a sequence of events leave,
  applied in order to a registry \<open>m\<close>.
\<close>

fun replay ::
  "event list \<Rightarrow> (uint64_t \<times> CallbackContext) list \<Rightarrow> (uint64_t \<times> CallbackContext) list" where
  "replay [] m = m"
| "replay (StoreEv i context # evs) m = replay evs (map_assign m i context)"
| "replay (EraseEv i # evs) m = replay evs (map_erase m i)"
| "replay (ClearEv # evs) m = replay evs []"
| "replay (ev # evs) m = replay evs m"

subsection \<open>Well-formed registries\<close>

text \<open>
  \<open>registry_refs\<close> lists the references the registry holds.
  The registry is well formed when the library has been loaded, the keys ascend
  strictly, no reference occurs twice and every entry holds a virtual machine and a live
  global reference.
\<close>

definition registry_refs :: "jni_state \<Rightarrow> gref list" where
  "registry_refs s = map (\<lambda>p. bridge_instance (snd p)) (g_callbacks s)"

definition entry_ok :: "jni_state \<Rightarrow> uint64_t \<times> CallbackContext \<Rightarrow> bool" where
  "entry_ok s p = (jvm (snd p) \<noteq> None \<and> deref s (bridge_instance (snd p)) \<noteq> None)"

definition registry_ok :: "jni_state \<Rightarrow> bool" where
  "registry_ok s =
     (g_jvm s \<noteq> None \<and>
      sorted_wrt (<) (map fst (g_callbacks s)) \<and>
      distinct (registry_refs s) \<and>
      list_all (entry_ok s) (g_callbacks s))"

text \<open>A leaked reference is live and held by no registry entry.\<close>

definition leaked :: "jni_state \<Rightarrow> gref \<Rightarrow> bool" where
  "leaked s r = (deref s r \<noteq> None \<and> r \<notin> set (registry_refs s))"

text \<open>
  The calls that take the entry of \<open>connection_id\<close> out of the registry: the source
  erases it in \<open>nativeUnregisterCallback\<close> and \<open>nativeDisconnect\<close> for that identifier
  and clears the whole registry in \<open>nativeShutdown\<close>.
\<close>

fun destroys :: "api_call \<Rightarrow> uint64_t \<Rightarrow> bool" where
  "destroys (UnregisterCallback i r) connection_id = (i = connection_id)"
| "destroys (Disconnect i r) connection_id = (i = connection_id)"
| "destroys Shutdown connection_id = True"
| "destroys c connection_id = False"

fun is_register :: "api_call \<Rightarrow> bool" where
  "is_register (RegisterCallback thiz i r) = True"
| "is_register c = False"

subsection \<open>Example states\<close>

text \<open>
  The library loaded by virtual machine 1 with thread 0 attached, and then object 7
  registered for connection 42 (the core accepting the registration).
\<close>

definition loaded_state :: jni_state where
  "loaded_state = snd (JNI_OnLoad 1 (initial_state {0}))"

definition registered_state :: jni_state where
  "registered_state = snd (nativeRegisterCallback 7 42 0 loaded_state)"

text \<open>Object 8 registered for connection 43 as well.\<close>

definition two_registered_state :: jni_state where
  "two_registered_state = snd (nativeRegisterCallback 8 43 0 registered_state)"

definition vm_ok :: vm_answers where
  "vm_ok = \<lparr>version_supported = True, attach_status = 0, method_found = True,
            callback_throws = None\<rparr>"

definition vm_attach_fails :: vm_answers where
  "vm_attach_fails = vm_ok\<lparr>attach_status := - 1\<rparr>"

definition vm_throws :: vm_answers where
  "vm_throws = vm_ok\<lparr>callback_throws := Some (Thrown ''java.lang.IllegalStateException'')\<rparr>"

section \<open>Properties\<close>

subsection \<open>The map\<close>

lemma map_find_assign:
  "map_find (map_assign m k v) k' = (if k' = k then Some v else map_find m k')"
  by (induction m) auto

lemma map_find_absent: "k \<notin> set (map fst m) \<Longrightarrow> map_find m k = None"
  by (induction m) auto

lemma map_find_erase:
  "distinct (map fst m) \<Longrightarrow>
   map_find (map_erase m k) k' = (if k' = k then None else map_find m k')"
  by (induction m) (auto simp: map_find_absent)

lemma map_find_Some_mem: "map_find m k = Some v \<Longrightarrow> (k, v) \<in> set m"
  by (induction m) (auto split: if_splits)

lemma set_map_erase: "set (map_erase m k) \<subseteq> set m"
  by (induction m) (auto split: if_splits)

lemma set_map_assign: "set (map_assign m k v) \<subseteq> insert (k, v) (set m)"
  by (induction m) (auto split: if_splits)

lemma keys_map_assign: "fst ` set (map_assign m k v) = insert k (fst ` set m)"
  by (induction m) (force split: if_splits)+

lemma sorted_keys_assign:
  "sorted_wrt (<) (map fst m) \<Longrightarrow> sorted_wrt (<) (map fst (map_assign m k v))"
proof (induction m)
  case Nil
  then show ?case by simp
next
  case (Cons p m)
  obtain k' v' where p: "p = (k', v')" by (cases p)
  from Cons.prems have above: "\<forall>x \<in> fst ` set m. k' < x"
    and rest: "sorted_wrt (<) (map fst m)"
    by (simp_all add: p)
  show ?case
  proof (cases "k < k'")
    case True
    with above rest show ?thesis
      by (auto simp: p)
  next
    case False
    show ?thesis
    proof (cases "k = k'")
      case True
      with above rest show ?thesis by (simp add: p)
    next
      case neq: False
      with False have "k' < k" by simp
      with False neq above Cons.IH [OF rest] show ?thesis
        by (auto simp: p keys_map_assign)
    qed
  qed
qed

lemma sorted_keys_erase:
  "sorted_wrt (<) (map fst m) \<Longrightarrow> sorted_wrt (<) (map fst (map_erase m k))"
proof (induction m)
  case Nil
  then show ?case by simp
next
  case (Cons p m)
  have "set (map_erase m k) \<subseteq> set m"
    by (rule set_map_erase)
  with Cons show ?case
    by (cases p) auto
qed

lemma sorted_keys_distinct: "sorted_wrt (<) (map fst m) \<Longrightarrow> distinct (map fst m)"
  for m :: "('k::linorder \<times> 'v) list"
  by (simp add: strict_sorted_iff)

lemma distinct_map_erase:
  "distinct (map f m) \<Longrightarrow> distinct (map f (map_erase m k))"
proof (induction m)
  case Nil
  then show ?case by simp
next
  case (Cons p m)
  have "f ` set (map_erase m k) \<subseteq> f ` set m"
    using set_map_erase [of m k] by (rule image_mono)
  with Cons show ?case
    by (cases p) auto
qed

lemma distinct_vals_assign:
  "distinct (map f m) \<Longrightarrow> f (k, v) \<notin> set (map f m) \<Longrightarrow>
   distinct (map f (map_assign m k v))"
proof (induction m)
  case Nil
  then show ?case by simp
next
  case (Cons p m)
  have "f ` set (map_assign m k v) \<subseteq> insert (f (k, v)) (f ` set m)"
    using set_map_assign [of m k v] by auto
  with Cons show ?case
    by (cases p) auto
qed

lemma set_map_assign_sorted:
  "sorted_wrt (<) (map fst m) \<Longrightarrow>
   set (map_assign m k v) = insert (k, v) {p \<in> set m. fst p \<noteq> k}"
proof (induction m)
  case Nil
  then show ?case by simp
next
  case (Cons p m)
  obtain k' v' where p: "p = (k', v')" by (cases p)
  from Cons.prems have above: "\<forall>x \<in> set m. k' < fst x"
    and rest: "sorted_wrt (<) (map fst m)"
    by (simp_all add: p)
  show ?case
  proof (cases "k < k'")
    case True
    with above have "\<forall>x \<in> set m. fst x \<noteq> k"
      by fastforce
    with True show ?thesis
      by (auto simp: p)
  next
    case False
    show ?thesis
    proof (cases "k = k'")
      case True
      with above have "\<forall>x \<in> set m. fst x \<noteq> k"
        by fastforce
      with True show ?thesis
        by (auto simp: p)
    next
      case neq: False
      with False Cons.IH [OF rest] show ?thesis
        by (auto simp: p)
    qed
  qed
qed

lemma set_map_erase_distinct:
  "distinct (map fst m) \<Longrightarrow> set (map_erase m k) = {p \<in> set m. fst p \<noteq> k}"
proof (induction m)
  case Nil
  then show ?case by simp
next
  case (Cons p m)
  obtain k' v' where p: "p = (k', v')" by (cases p)
  from Cons.prems have fresh: "\<forall>x \<in> set m. fst x \<noteq> k'" and rest: "distinct (map fst m)"
    by (auto simp: p)
  show ?case
  proof (cases "k' = k")
    case True
    with fresh show ?thesis
      by (auto simp: p)
  next
    case False
    then have "set (map_erase (p # m) k) = insert p (set (map_erase m k))"
      by (simp add: p)
    also have "\<dots> = insert p {q \<in> set m. fst q \<noteq> k}"
      by (simp only: Cons.IH [OF rest])
    also have "\<dots> = {q \<in> set (p # m). fst q \<noteq> k}"
      using False by (auto simp: p)
    finally show ?thesis .
  qed
qed

lemma one_entry_per_key:
  "distinct (map fst m) \<Longrightarrow> map_find m k = Some v \<Longrightarrow>
   length (filter (\<lambda>p. fst p = k) m) = 1"
proof (induction m)
  case Nil
  then show ?case by simp
next
  case (Cons p m)
  obtain k' v' where p: "p = (k', v')" by (cases p)
  show ?case
  proof (cases "k' = k")
    case True
    with Cons.prems(1) have "filter (\<lambda>p. fst p = k) m = []"
      by (auto simp: p filter_empty_conv rev_image_eqI)
    with True show ?thesis by (simp add: p)
  next
    case False
    with Cons show ?thesis by (simp add: p)
  qed
qed

lemma distinct_refs_same_entry:
  assumes "distinct (map f m)" and "p \<in> set m" and "q \<in> set m" and "f p = f q"
  shows "p = q"
  using assms by (meson distinct_map inj_on_def)

subsection \<open>What each JNI function and log line leaves alone\<close>

lemma emit_fields [simp]:
  "g_callbacks (emit ev s) = g_callbacks s"
  "g_jvm (emit ev s) = g_jvm s"
  "global_refs (emit ev s) = global_refs s"
  "attached (emit ev s) = attached s"
  "pending (emit ev s) = pending s"
  "trace (emit ev s) = trace s @ [ev]"
  by (simp_all add: emit_def)

lemma deref_emit [simp]: "deref (emit ev s) r = deref s r"
  by (simp add: deref_def)

lemma deref_fields [simp]:
  "deref (s\<lparr>g_callbacks := m\<rparr>) r = deref s r"
  "deref (s\<lparr>g_jvm := v\<rparr>) r = deref s r"
  "deref (s\<lparr>attached := A\<rparr>) r = deref s r"
  "deref (s\<lparr>pending := P\<rparr>) r = deref s r"
  "deref (s\<lparr>trace := evs\<rparr>) r = deref s r"
  by (simp_all add: deref_def)

lemma deref_DeleteGlobalRef [simp]:
  "deref (DeleteGlobalRef r s) r' = (if r' = r then None else deref s r')"
  by (auto simp: deref_def DeleteGlobalRef_def)

lemma deref_NewGlobalRef:
  "deref (snd (NewGlobalRef obj s)) r =
     (if r = length (global_refs s) then Some obj else deref s r)"
  by (auto simp: deref_def NewGlobalRef_def Let_def nth_append)

lemma deref_fresh [simp]: "deref s (length (global_refs s)) = None"
  by (simp add: deref_def)

lemmas log_defs = LOGI_def LOGE_def LOGD_def

lemmas jni_defs = GetEnv_def AttachCurrentThread_def DetachCurrentThread_def CallVoidMethod_def
  ExceptionCheck_def ExceptionDescribe_def ExceptionClear_def JNI_OK_def JNI_EDETACHED_def
  JNI_EVERSION_def

lemma new_events_append [simp]: "trace s' = trace s @ evs \<Longrightarrow> new_events s s' = evs"
  by (simp add: new_events_def)

subsection \<open>The example states, evaluated\<close>

lemma loaded_state_eq:
  "loaded_state =
     \<lparr>g_callbacks = [], g_jvm = Some 1, global_refs = [], attached = {0},
      pending = (\<lambda>_. None), trace = [Log ANDROID_LOG_INFO ''JNI_OnLoad called'' []]\<rparr>"
  by (simp add: loaded_state_def JNI_OnLoad_def initial_state_def log_defs emit_def)

lemma registered_state_eq:
  "registered_state =
     \<lparr>g_callbacks = [(42, \<lparr>jvm = Some 1, bridge_instance = 0\<rparr>)], g_jvm = Some 1,
      global_refs = [Some 7], attached = {0}, pending = (\<lambda>_. None),
      trace = [Log ANDROID_LOG_INFO ''JNI_OnLoad called'' [],
               Log ANDROID_LOG_INFO ''nativeRegisterCallback called for connection %lld'' [Num 42],
               AcquireEv,
               NewGlobalRefEv 0 7,
               StoreEv 42 \<lparr>jvm = Some 1, bridge_instance = 0\<rparr>,
               ReleaseEv,
               CoreEv (omnitak_register_callback 42),
               Log ANDROID_LOG_INFO ''Callback registered successfully'' []]\<rparr>"
  by (simp add: registered_state_def loaded_state_eq nativeRegisterCallback_def NewGlobalRef_def
      log_defs emit_def Let_def)

subsection \<open>Reading traces\<close>

lemma released_append [simp]: "released (xs @ ys) = released xs @ released ys"
  by (induction xs rule: released.induct) auto

lemma created_append [simp]: "created (xs @ ys) = created xs @ created ys"
  by (induction xs rule: created.induct) auto

lemma invocations_append [simp]: "invocations (xs @ ys) = invocations xs @ invocations ys"
  by (simp add: invocations_def)

lemma invocations_simps [simp]:
  "invocations [] = []"
  "invocations (ev # evs) = (if is_invocation ev then ev # invocations evs else invocations evs)"
  by (simp_all add: invocations_def)

subsection \<open>The effect of each native method, field by field\<close>

lemma nativeRegisterCallback_fields:
  "fst (nativeRegisterCallback thiz connectionId result s) = result"
  "g_callbacks (snd (nativeRegisterCallback thiz connectionId result s)) =
     map_assign (g_callbacks s) connectionId
       \<lparr>jvm = g_jvm s, bridge_instance = length (global_refs s)\<rparr>"
  "g_jvm (snd (nativeRegisterCallback thiz connectionId result s)) = g_jvm s"
  "global_refs (snd (nativeRegisterCallback thiz connectionId result s)) =
     global_refs s @ [Some thiz]"
  "attached (snd (nativeRegisterCallback thiz connectionId result s)) = attached s"
  "pending (snd (nativeRegisterCallback thiz connectionId result s)) = pending s"
  "trace (snd (nativeRegisterCallback thiz connectionId result s)) =
     trace s @
       [Log ANDROID_LOG_INFO ''nativeRegisterCallback called for connection %lld''
          [Num (sint connectionId)],
        AcquireEv,
        NewGlobalRefEv (length (global_refs s)) thiz,
        StoreEv connectionId \<lparr>jvm = g_jvm s, bridge_instance = length (global_refs s)\<rparr>,
        ReleaseEv,
        CoreEv (omnitak_register_callback connectionId),
        if result = 0 then Log ANDROID_LOG_INFO ''Callback registered successfully'' []
        else Log ANDROID_LOG_ERROR ''Failed to register callback: %d'' [Num (sint result)]]"
  by (simp_all add: nativeRegisterCallback_def NewGlobalRef_def log_defs Let_def)

lemma nativeUnregisterCallback_fields:
  "fst (nativeUnregisterCallback connectionId result s) = result"
  "g_callbacks (snd (nativeUnregisterCallback connectionId result s)) =
     (case map_find (g_callbacks s) connectionId of
        None \<Rightarrow> g_callbacks s
      | Some context \<Rightarrow> map_erase (g_callbacks s) connectionId)"
  "g_jvm (snd (nativeUnregisterCallback connectionId result s)) = g_jvm s"
  "global_refs (snd (nativeUnregisterCallback connectionId result s)) =
     (case map_find (g_callbacks s) connectionId of
        None \<Rightarrow> global_refs s
      | Some context \<Rightarrow> (global_refs s)[bridge_instance context := None])"
  "attached (snd (nativeUnregisterCallback connectionId result s)) = attached s"
  "pending (snd (nativeUnregisterCallback connectionId result s)) = pending s"
  "trace (snd (nativeUnregisterCallback connectionId result s)) =
     trace s @
       [Log ANDROID_LOG_INFO ''nativeUnregisterCallback called for connection %lld''
          [Num (sint connectionId)],
        CoreEv (omnitak_unregister_callback connectionId),
        AcquireEv,
        LookupEv connectionId (map_find (g_callbacks s) connectionId)] @
       (case map_find (g_callbacks s) connectionId of
          None \<Rightarrow> []
        | Some context \<Rightarrow>
            [DeleteGlobalRefEv (bridge_instance context), EraseEv connectionId]) @
       [ReleaseEv]"
  by (simp_all add: nativeUnregisterCallback_def DeleteGlobalRef_def log_defs Let_def
      split: option.splits)

lemma released_map_Delete [simp]:
  "released (map (\<lambda>p. DeleteGlobalRefEv (f p)) m) = map f m"
  by (induction m) auto

lemma created_map_Delete [simp]:
  "created (map (\<lambda>p. DeleteGlobalRefEv (f p)) m) = []"
  by (induction m) auto

lemma invocations_map_Delete [simp]:
  "invocations (map (\<lambda>p. DeleteGlobalRefEv (f p)) m) = []"
  by (induction m) auto

lemma release_all_fields:
  "g_callbacks (foldl (\<lambda>st pair. DeleteGlobalRef (bridge_instance (snd pair)) st) s m) =
     g_callbacks s"
  "g_jvm (foldl (\<lambda>st pair. DeleteGlobalRef (bridge_instance (snd pair)) st) s m) = g_jvm s"
  "attached (foldl (\<lambda>st pair. DeleteGlobalRef (bridge_instance (snd pair)) st) s m) =
     attached s"
  "pending (foldl (\<lambda>st pair. DeleteGlobalRef (bridge_instance (snd pair)) st) s m) = pending s"
  "trace (foldl (\<lambda>st pair. DeleteGlobalRef (bridge_instance (snd pair)) st) s m) =
     trace s @ map (\<lambda>p. DeleteGlobalRefEv (bridge_instance (snd p))) m"
  "length (global_refs (foldl (\<lambda>st pair. DeleteGlobalRef (bridge_instance (snd pair)) st) s m)) =
     length (global_refs s)"
  by (induction m arbitrary: s) (simp_all add: DeleteGlobalRef_def)

lemma release_all_deref:
  "deref (foldl (\<lambda>st pair. DeleteGlobalRef (bridge_instance (snd pair)) st) s m) r =
     (if r \<in> set (map (\<lambda>p. bridge_instance (snd p)) m) then None else deref s r)"
  by (induction m arbitrary: s) auto

lemma nativeShutdown_fields:
  "g_callbacks (nativeShutdown s) = []"
  "g_jvm (nativeShutdown s) = g_jvm s"
  "attached (nativeShutdown s) = attached s"
  "pending (nativeShutdown s) = pending s"
  "trace (nativeShutdown s) =
     trace s @ [Log ANDROID_LOG_INFO ''nativeShutdown called'' [], AcquireEv, ScanEv] @
       map (\<lambda>p. DeleteGlobalRefEv (bridge_instance (snd p))) (g_callbacks s) @
       [ClearEv, ReleaseEv, CoreEv omnitak_shutdown,
        Log ANDROID_LOG_INFO ''Shutdown complete'' []]"
  "length (global_refs (nativeShutdown s)) = length (global_refs s)"
  by (simp_all add: nativeShutdown_def Let_def log_defs release_all_fields)

lemma nativeShutdown_deref:
  "deref (nativeShutdown s) r = (if r \<in> set (registry_refs s) then None else deref s r)"
  by (simp add: nativeShutdown_def Let_def log_defs release_all_deref registry_refs_def)

lemma nativeDisconnect_fields:
  "fst (nativeDisconnect connectionId result s) = result"
  "g_callbacks (snd (nativeDisconnect connectionId result s)) =
     (case map_find (g_callbacks s) connectionId of
        None \<Rightarrow> g_callbacks s
      | Some context \<Rightarrow> map_erase (g_callbacks s) connectionId)"
  "g_jvm (snd (nativeDisconnect connectionId result s)) = g_jvm s"
  "global_refs (snd (nativeDisconnect connectionId result s)) =
     (case map_find (g_callbacks s) connectionId of
        None \<Rightarrow> global_refs s
      | Some context \<Rightarrow> (global_refs s)[bridge_instance context := None])"
  "attached (snd (nativeDisconnect connectionId result s)) = attached s"
  "pending (snd (nativeDisconnect connectionId result s)) = pending s"
  "trace (snd (nativeDisconnect connectionId result s)) =
     trace s @
       [Log ANDROID_LOG_INFO ''nativeDisconnect called for connection %lld''
          [Num (sint connectionId)],
        CoreEv (omnitak_disconnect connectionId),
        AcquireEv,
        LookupEv connectionId (map_find (g_callbacks s) connectionId)] @
       (case map_find (g_callbacks s) connectionId of
          None \<Rightarrow> []
        | Some context \<Rightarrow>
            [DeleteGlobalRefEv (bridge_instance context), EraseEv connectionId,
             Log ANDROID_LOG_INFO ''Callback cleaned up for connection %lld''
               [Num (sint connectionId)]]) @
       [ReleaseEv]"
  by (simp_all add: nativeDisconnect_def DeleteGlobalRef_def log_defs Let_def
      split: option.splits)

text \<open>The methods that only talk to the core leave registry and references alone.\<close>

lemma JNI_OnLoad_fields:
  "g_callbacks (snd (JNI_OnLoad vm s)) = g_callbacks s"
  "g_jvm (snd (JNI_OnLoad vm s)) = Some vm"
  "global_refs (snd (JNI_OnLoad vm s)) = global_refs s"
  "trace (snd (JNI_OnLoad vm s)) = trace s @ [Log ANDROID_LOG_INFO ''JNI_OnLoad called'' []]"
  by (simp_all add: JNI_OnLoad_def log_defs)

lemma nativeInit_fields:
  "g_callbacks (snd (nativeInit result s)) = g_callbacks s"
  "g_jvm (snd (nativeInit result s)) = g_jvm s"
  "global_refs (snd (nativeInit result s)) = global_refs s"
  "trace (snd (nativeInit result s)) =
     trace s @ [Log ANDROID_LOG_INFO ''nativeInit called'' [], CoreEv omnitak_init,
                Log ANDROID_LOG_INFO ''omnitak_init returned %d'' [Num (sint result)]]"
  by (simp_all add: nativeInit_def log_defs Let_def)

lemma nativeConnect_fields:
  "g_callbacks (snd (nativeConnect host port protocol useTls certPem keyPem caPem r s)) =
     g_callbacks s"
  "g_jvm (snd (nativeConnect host port protocol useTls certPem keyPem caPem r s)) = g_jvm s"
  "global_refs (snd (nativeConnect host port protocol useTls certPem keyPem caPem r s)) =
     global_refs s"
  "released (new_events s (snd (nativeConnect host port protocol useTls certPem keyPem caPem r s)))
     = []"
  by (simp_all add: nativeConnect_def log_defs Let_def new_events_def)

lemma nativeSendCot_fields:
  "g_callbacks (snd (nativeSendCot connectionId cotXml result s)) = g_callbacks s"
  "g_jvm (snd (nativeSendCot connectionId cotXml result s)) = g_jvm s"
  "global_refs (snd (nativeSendCot connectionId cotXml result s)) = global_refs s"
  "released (new_events s (snd (nativeSendCot connectionId cotXml result s))) = []"
  by (simp_all add: nativeSendCot_def log_defs Let_def new_events_def)

lemma nativeGetStatus_fields:
  "g_callbacks (snd (nativeGetStatus env connectionId a s)) = g_callbacks s"
  "g_jvm (snd (nativeGetStatus env connectionId a s)) = g_jvm s"
  "global_refs (snd (nativeGetStatus env connectionId a s)) = global_refs s"
  "released (new_events s (snd (nativeGetStatus env connectionId a s))) = []"
  by (simp_all add: nativeGetStatus_def log_defs Let_def new_events_def)

lemma nativeVersion_fields:
  "g_callbacks (snd (nativeVersion version s)) = g_callbacks s"
  "g_jvm (snd (nativeVersion version s)) = g_jvm s"
  "global_refs (snd (nativeVersion version s)) = global_refs s"
  "released (new_events s (snd (nativeVersion version s))) = []"
  by (simp_all add: nativeVersion_def log_defs Let_def new_events_def)

subsection \<open>What a run of \<open>cot_callback_bridge\<close> that reaches the call does\<close>

lemma deliver_calls:
  assumes "deref s (bridge_instance context) = Some T" and "method_found a"
  shows "\<exists>s' evs. deliver t a context connection_id cot_xml needDetach s = Inr s' \<and>
           trace s' = trace s @ evs \<and>
           invocations evs =
             [CallVoidMethodEv T ''onCotReceived'' ''(JLjava/lang/String;)V'' connection_id
                (string_to_jstring cot_xml)] \<and>
           filter is_attachment evs = (if needDetach then [DetachEv t] else []) \<and>
           g_callbacks s' = g_callbacks s \<and> g_jvm s' = g_jvm s \<and>
           global_refs s' = global_refs s \<and>
           attached s' = (if needDetach then attached s - {t} else attached s) \<and>
           pending s' t = None"
  using assms
  by (auto simp: deliver_def jni_defs log_defs Let_def split: option.splits)

lemma dispatch_calls:
  assumes "map_find (g_callbacks s) connection_id = Some context"
    and "jvm context = Some vm"
    and "deref s (bridge_instance context) = Some T"
    and "if t \<in> attached s then version_supported a else attach_status a = 0"
    and "method_found a"
  shows "\<exists>s' evs. cot_callback_bridge t a connection_id cot_xml s = Inr s' \<and>
           trace s' = trace s @ evs \<and>
           invocations evs =
             [CallVoidMethodEv T ''onCotReceived'' ''(JLjava/lang/String;)V'' connection_id
                (string_to_jstring cot_xml)] \<and>
           g_callbacks s' = g_callbacks s \<and> g_jvm s' = g_jvm s \<and>
           global_refs s' = global_refs s \<and> attached s' = attached s \<and> pending s' t = None"
proof (cases "t \<in> attached s")
  case True
  let ?s = "emit ReleaseEv (emit (LookupEv connection_id (Some context))
              (emit AcquireEv
                (LOGD ''CoT callback triggered for connection %llu'' [Num (uint connection_id)] s)))"
  have eq: "cot_callback_bridge t a connection_id cot_xml s =
              deliver t a context connection_id cot_xml False ?s"
    using assms True
    by (simp add: cot_callback_bridge_def Let_def GetEnv_def JNI_OK_def JNI_EDETACHED_def
        JNI_EVERSION_def log_defs)
  have d: "deref ?s (bridge_instance context) = Some T"
    using assms(3) by (simp add: log_defs)
  from deliver_calls [OF d assms(5), of t connection_id cot_xml False] show ?thesis
    unfolding eq by (auto simp: log_defs)
next
  case False
  let ?s = "AttachCurrentThread t (LOGD ''Attaching to JVM for callback'' []
              (emit ReleaseEv (emit (LookupEv connection_id (Some context))
              (emit AcquireEv
                (LOGD ''CoT callback triggered for connection %llu'' [Num (uint connection_id)] s)))))"
  have eq: "cot_callback_bridge t a connection_id cot_xml s =
              deliver t a context connection_id cot_xml True ?s"
    using assms False
    by (simp add: cot_callback_bridge_def Let_def GetEnv_def JNI_OK_def JNI_EDETACHED_def
        JNI_EVERSION_def log_defs)
  have d: "deref ?s (bridge_instance context) = Some T"
    using assms(3) by (simp add: log_defs AttachCurrentThread_def)
  from deliver_calls [OF d assms(5), of t connection_id cot_xml True] show ?thesis
    unfolding eq using False by (auto simp: log_defs AttachCurrentThread_def)
qed

lemma deliver_attachment:
  assumes "deliver t a context connection_id cot_xml needDetach s = Inr s'"
  shows "\<exists>evs. trace s' = trace s @ evs \<and>
           filter is_attachment evs = (if needDetach then [DetachEv t] else []) \<and>
           released evs = [] \<and> created evs = [] \<and>
           attached s' = (if needDetach then attached s - {t} else attached s) \<and>
           g_callbacks s' = g_callbacks s \<and> g_jvm s' = g_jvm s \<and>
           global_refs s' = global_refs s"
  using assms
  by (auto simp: deliver_def jni_defs log_defs Let_def split: option.splits if_splits)

lemma deliver_returns:
  "deref s (bridge_instance context) \<noteq> None \<Longrightarrow>
   \<not> isl (deliver t a context connection_id cot_xml needDetach s)"
  by (auto simp: deliver_def Let_def split: if_splits)

lemma registry_ok_entry:
  assumes "registry_ok s" and "map_find (g_callbacks s) connection_id = Some context"
  shows "jvm context \<noteq> None" and "deref s (bridge_instance context) \<noteq> None"
proof -
  have "(connection_id, context) \<in> set (g_callbacks s)"
    using assms(2) by (rule map_find_Some_mem)
  with assms(1) have "entry_ok s (connection_id, context)"
    by (auto simp: registry_ok_def list_all_iff)
  then show "jvm context \<noteq> None" and "deref s (bridge_instance context) \<noteq> None"
    by (simp_all add: entry_ok_def)
qed

lemma dispatch_returns:
  assumes "registry_ok s"
  shows "\<not> isl (cot_callback_bridge t a connection_id cot_xml s)"
proof (cases "map_find (g_callbacks s) connection_id")
  case None
  then show ?thesis
    by (simp add: cot_callback_bridge_def log_defs)
next
  case (Some ctx)
  from registry_ok_entry [OF assms Some] obtain vm T where
    vm: "jvm ctx = Some vm" and T: "deref s (bridge_instance ctx) = Some T"
    by auto
  show ?thesis
    using Some vm T
    by (auto simp: cot_callback_bridge_def Let_def log_defs AttachCurrentThread_def
        intro!: deliver_returns)
qed

lemma dispatch_attachment:
  assumes "cot_callback_bridge t a connection_id cot_xml s = Inr s'"
  shows "\<exists>evs. trace s' = trace s @ evs \<and>
           filter is_attachment evs =
             (if t \<notin> attached s \<and> map_find (g_callbacks s) connection_id \<noteq> None \<and>
                 attach_status a = 0
              then [AttachEv t, DetachEv t] else []) \<and>
           released evs = [] \<and> created evs = [] \<and>
           attached s' = attached s \<and> g_callbacks s' = g_callbacks s \<and> g_jvm s' = g_jvm s \<and>
           global_refs s' = global_refs s"
proof (cases "map_find (g_callbacks s) connection_id")
  case None
  with assms show ?thesis
    by (auto simp: cot_callback_bridge_def log_defs)
next
  case (Some ctx)
  let ?s = "emit ReleaseEv (emit (LookupEv connection_id (Some ctx))
              (emit AcquireEv
                (LOGD ''CoT callback triggered for connection %llu'' [Num (uint connection_id)] s)))"
  from assms Some obtain vm where vm: "jvm ctx = Some vm"
    by (auto simp: cot_callback_bridge_def Let_def log_defs split: option.splits)
  show ?thesis
  proof (cases "t \<in> attached s")
    case True
    show ?thesis
    proof (cases "version_supported a")
      case v: True
      with assms Some vm True
      have "deliver t a ctx connection_id cot_xml False ?s = Inr s'"
        by (simp add: cot_callback_bridge_def Let_def log_defs jni_defs)
      from deliver_attachment [OF this] True show ?thesis
        by (auto simp: log_defs)
    next
      case v: False
      with assms Some vm True show ?thesis
        by (auto simp: cot_callback_bridge_def Let_def log_defs jni_defs)
    qed
  next
    case False
    show ?thesis
    proof (cases "attach_status a = 0")
      case ok: True
      let ?s1 = "AttachCurrentThread t (LOGD ''Attaching to JVM for callback'' [] ?s)"
      from assms Some vm False ok
      have "deliver t a ctx connection_id cot_xml True ?s1 = Inr s'"
        by (simp add: cot_callback_bridge_def Let_def log_defs GetEnv_def JNI_OK_def
            JNI_EDETACHED_def JNI_EVERSION_def)
      from deliver_attachment [OF this] False ok Some show ?thesis
        by (auto simp: log_defs AttachCurrentThread_def)
    next
      case ok: False
      with assms Some vm False show ?thesis
        by (auto simp: cot_callback_bridge_def Let_def log_defs GetEnv_def JNI_OK_def
            JNI_EDETACHED_def JNI_EVERSION_def)
    qed
  qed
qed

lemma deref_cong: "global_refs s' = global_refs s \<Longrightarrow> deref s' r = deref s r"
  by (simp add: deref_def)

lemma deliver_throws:
  assumes "deref s (bridge_instance context) = Some T" and "method_found a"
    and "callback_throws a = Some x"
  shows "\<exists>s'. deliver t a context connection_id cot_xml needDetach s = Inr s' \<and>
           trace s' = trace s @
             [CallVoidMethodEv T ''onCotReceived'' ''(JLjava/lang/String;)V'' connection_id
                (string_to_jstring cot_xml),
              Log ANDROID_LOG_ERROR ''Exception occurred in onCotReceived'' [],
              ExceptionDescribeEv x] @ (if needDetach then [DetachEv t] else []) \<and>
           pending s' = (pending s)(t := None)"
  using assms
  by (auto simp: deliver_def jni_defs log_defs Let_def)

lemma dispatch_throws:
  assumes "map_find (g_callbacks s) connection_id = Some context"
    and "jvm context = Some vm"
    and "deref s (bridge_instance context) = Some T"
    and "if t \<in> attached s then version_supported a else attach_status a = 0"
    and "method_found a"
    and "callback_throws a = Some x"
  shows "\<exists>s' evs. cot_callback_bridge t a connection_id cot_xml s = Inr s' \<and>
           trace s' = trace s @ evs \<and>
           ExceptionDescribeEv x \<in> set evs \<and>
           pending s' = (pending s)(t := None)"
proof (cases "t \<in> attached s")
  case True
  let ?s = "emit ReleaseEv (emit (LookupEv connection_id (Some context))
              (emit AcquireEv
                (LOGD ''CoT callback triggered for connection %llu'' [Num (uint connection_id)] s)))"
  have eq: "cot_callback_bridge t a connection_id cot_xml s =
              deliver t a context connection_id cot_xml False ?s"
    using assms True
    by (simp add: cot_callback_bridge_def Let_def GetEnv_def JNI_OK_def JNI_EDETACHED_def
        JNI_EVERSION_def log_defs)
  have d: "deref ?s (bridge_instance context) = Some T"
    using assms(3) by (simp add: log_defs)
  from deliver_throws [OF d assms(5,6), of t connection_id cot_xml False] show ?thesis
    unfolding eq by (auto simp: log_defs)
next
  case False
  let ?s = "AttachCurrentThread t (LOGD ''Attaching to JVM for callback'' []
              (emit ReleaseEv (emit (LookupEv connection_id (Some context))
              (emit AcquireEv
                (LOGD ''CoT callback triggered for connection %llu'' [Num (uint connection_id)] s)))))"
  have eq: "cot_callback_bridge t a connection_id cot_xml s =
              deliver t a context connection_id cot_xml True ?s"
    using assms False
    by (simp add: cot_callback_bridge_def Let_def GetEnv_def JNI_OK_def JNI_EDETACHED_def
        JNI_EVERSION_def log_defs)
  have d: "deref ?s (bridge_instance context) = Some T"
    using assms(3) by (simp add: log_defs AttachCurrentThread_def)
  from deliver_throws [OF d assms(5,6), of t connection_id cot_xml True] show ?thesis
    unfolding eq using False by (auto simp: log_defs AttachCurrentThread_def)
qed

subsection \<open>What a run of \<open>cot_callback_bridge\<close> delivers, in closed form\<close>

lemma deliver_summary:
  "isl (deliver t a context i x needDetach s) = (deref s (bridge_instance context) = None)"
  "delivered s0 (deliver t a context i x needDetach s) =
     (case deref s (bridge_instance context) of
        None \<Rightarrow> []
      | Some T \<Rightarrow>
          invocations (new_events s0 s) @
          (if method_found a
           then [CallVoidMethodEv T ''onCotReceived'' ''(JLjava/lang/String;)V'' i
                   (string_to_jstring x)]
           else []))"
  if "\<exists>evs. trace s = trace s0 @ evs" for s0
  using that
  by (auto simp: deliver_def delivered_def jni_defs log_defs Let_def new_events_def
      split: option.splits)

lemma dispatch_summary:
  "isl (cot_callback_bridge t a i x s) =
     (case map_find (g_callbacks s) i of
        None \<Rightarrow> False
      | Some context \<Rightarrow>
          (case jvm context of
             None \<Rightarrow> True
           | Some vm \<Rightarrow>
               (if t \<in> attached s then version_supported a else attach_status a = 0) \<and>
               deref s (bridge_instance context) = None))" (is ?isl)
  "delivered s (cot_callback_bridge t a i x s) =
     (case map_find (g_callbacks s) i of
        None \<Rightarrow> []
      | Some context \<Rightarrow>
          (case jvm context of
             None \<Rightarrow> []
           | Some vm \<Rightarrow>
               (case deref s (bridge_instance context) of
                  None \<Rightarrow> []
                | Some T \<Rightarrow>
                    if (if t \<in> attached s then version_supported a else attach_status a = 0) \<and>
                       method_found a
                    then [CallVoidMethodEv T ''onCotReceived'' ''(JLjava/lang/String;)V'' i
                            (string_to_jstring x)]
                    else [])))" (is ?del)
proof -
  have "?isl \<and> ?del"
  proof (cases "map_find (g_callbacks s) i")
    case None
    then show ?thesis
      by (simp add: cot_callback_bridge_def Let_def log_defs delivered_def new_events_def)
  next
    case (Some ctx)
    let ?s = "emit ReleaseEv (emit (LookupEv i (Some ctx))
                (emit AcquireEv (LOGD ''CoT callback triggered for connection %llu'' [Num (uint i)] s)))"
    let ?s1 = "AttachCurrentThread t (LOGD ''Attaching to JVM for callback'' [] ?s)"
    have ext: "\<exists>evs. trace ?s = trace s @ evs" "\<exists>evs. trace ?s1 = trace s @ evs"
      by (simp_all add: log_defs AttachCurrentThread_def)
    have inv: "invocations (new_events s ?s) = []" "invocations (new_events s ?s1) = []"
      by (simp_all add: log_defs AttachCurrentThread_def new_events_def)
    have d: "deref ?s r = deref s r" "deref ?s1 r = deref s r" for r
      by (simp_all add: log_defs AttachCurrentThread_def)
    have at: "attached (LOGD ''CoT callback triggered for connection %llu'' [Num (uint i)] s) =
        attached s"
      and d0: "deref (LOGD ''CoT callback triggered for connection %llu'' [Num (uint i)] s) r =
        deref s r" for r
      by (simp_all add: log_defs)
    have m: "g_callbacks (LOGD ''CoT callback triggered for connection %llu'' [Num (uint i)] s) =
        g_callbacks s"
      by (simp add: log_defs)
    note sums = deliver_summary [OF ext(1)] deliver_summary [OF ext(2)]
    show ?thesis
    proof (cases "jvm ctx")
      case None
      with Some show ?thesis
        by (simp add: cot_callback_bridge_def Let_def m delivered_def)
    next
      case vm: (Some vm)
      show ?thesis
      proof (cases "t \<in> attached s")
        case True
        show ?thesis
        proof (cases "version_supported a")
          case v: True
          with Some vm True show ?thesis
            by (simp add: cot_callback_bridge_def Let_def m GetEnv_def at JNI_OK_def
                JNI_EDETACHED_def JNI_EVERSION_def sums d d0 inv split: option.splits)
        next
          case v: False
          with Some vm True show ?thesis
            by (simp add: cot_callback_bridge_def Let_def m GetEnv_def at JNI_OK_def
                JNI_EDETACHED_def JNI_EVERSION_def delivered_def new_events_def log_defs
                split: option.splits)
        qed
      next
        case False
        show ?thesis
        proof (cases "attach_status a = 0")
          case ok: True
          with Some vm False show ?thesis
            by (simp add: cot_callback_bridge_def Let_def m GetEnv_def at JNI_OK_def
                JNI_EDETACHED_def JNI_EVERSION_def sums d d0 inv split: option.splits)
        next
          case ok: False
          with Some vm False show ?thesis
            by (simp add: cot_callback_bridge_def Let_def m GetEnv_def at JNI_OK_def
                JNI_EDETACHED_def JNI_EVERSION_def delivered_def new_events_def log_defs
                split: option.splits)
        qed
      qed
    qed
  qed
  then show ?isl and ?del by simp_all
qed

subsection \<open>Well-formedness is kept by every call\<close>

lemma registry_ok_cong:
  assumes "g_callbacks s' = g_callbacks s" and "g_jvm s' \<noteq> None"
    and "global_refs s' = global_refs s"
  shows "registry_ok s \<Longrightarrow> registry_ok s'"
proof -
  have "entry_ok s' = entry_ok s"
    by (rule ext) (simp add: entry_ok_def deref_def assms)
  moreover assume "registry_ok s"
  ultimately show ?thesis
    using assms by (simp add: registry_ok_def registry_refs_def)
qed

lemma registry_ok_frame:
  assumes "registry_ok s" and "g_callbacks s' = g_callbacks s" and "g_jvm s' = g_jvm s"
    and "global_refs s' = global_refs s"
  shows "registry_ok s'"
proof -
  from assms(1,3) have "g_jvm s' \<noteq> None"
    by (simp add: registry_ok_def)
  from registry_ok_cong [OF assms(2) this assms(4) assms(1)] show ?thesis .
qed

lemma registry_ok_live:
  assumes "registry_ok s" and "p \<in> set (g_callbacks s)"
  shows "bridge_instance (snd p) < length (global_refs s)"
proof -
  from assms have "deref s (bridge_instance (snd p)) \<noteq> None"
    by (auto simp: registry_ok_def list_all_iff entry_ok_def)
  then show ?thesis
    by (auto simp: deref_def split: if_splits)
qed

lemma registry_ok_register:
  assumes "registry_ok s"
  shows "registry_ok (snd (nativeRegisterCallback thiz connectionId result s))"
proof -
  let ?r = "length (global_refs s)"
  let ?c = "\<lparr>jvm = g_jvm s, bridge_instance = ?r\<rparr>"
  let ?s' = "snd (nativeRegisterCallback thiz connectionId result s)"
  let ?f = "\<lambda>p::uint64_t \<times> CallbackContext. bridge_instance (snd p)"
  have m': "g_callbacks ?s' = map_assign (g_callbacks s) connectionId ?c"
    and refs': "global_refs ?s' = global_refs s @ [Some thiz]"
    and jvm': "g_jvm ?s' = g_jvm s"
    by (simp_all add: nativeRegisterCallback_fields)
  from assms have jvm: "g_jvm s \<noteq> None"
    and sorted: "sorted_wrt (<) (map fst (g_callbacks s))"
    and dist: "distinct (map ?f (g_callbacks s))"
    and ok: "\<forall>p \<in> set (g_callbacks s). entry_ok s p"
    by (simp_all add: registry_ok_def registry_refs_def list_all_iff)
  have fresh: "?f (connectionId, ?c) \<notin> set (map ?f (g_callbacks s))"
    using registry_ok_live [OF assms] by fastforce
  have d': "distinct (map ?f (g_callbacks ?s'))"
    unfolding m' using dist fresh by (rule distinct_vals_assign)
  have s': "sorted_wrt (<) (map fst (g_callbacks ?s'))"
    unfolding m' using sorted by (rule sorted_keys_assign)
  have keep: "deref ?s' r = deref s r" if "r < ?r" for r
    using that by (simp add: deref_def refs' nth_append)
  have ok': "entry_ok ?s' p" if "p \<in> set (g_callbacks ?s')" for p
  proof -
    from that set_map_assign [of "g_callbacks s" connectionId ?c]
    have "p = (connectionId, ?c) \<or> p \<in> set (g_callbacks s)"
      unfolding m' by auto
    then show ?thesis
    proof
      assume "p = (connectionId, ?c)"
      with jvm show ?thesis
        by (simp add: entry_ok_def deref_def refs')
    next
      assume p: "p \<in> set (g_callbacks s)"
      with ok have "entry_ok s p" by blast
      with keep [OF registry_ok_live [OF assms p]] show ?thesis
        by (simp add: entry_ok_def)
    qed
  qed
  from jvm jvm' s' d' ok' show ?thesis
    by (simp add: registry_ok_def registry_refs_def list_all_iff)
qed

lemma registry_ok_erase:
  assumes "registry_ok s"
    and m': "g_callbacks s' =
       (case map_find (g_callbacks s) k of None \<Rightarrow> g_callbacks s
        | Some context \<Rightarrow> map_erase (g_callbacks s) k)"
    and refs': "global_refs s' =
       (case map_find (g_callbacks s) k of None \<Rightarrow> global_refs s
        | Some context \<Rightarrow> (global_refs s)[bridge_instance context := None])"
    and jvm': "g_jvm s' = g_jvm s"
  shows "registry_ok s'"
proof (cases "map_find (g_callbacks s) k")
  case None
  with assms show ?thesis
    by (auto intro: registry_ok_frame [of s s'])
next
  case (Some c)
  let ?f = "\<lambda>p::uint64_t \<times> CallbackContext. bridge_instance (snd p)"
  from assms(1) have jvm: "g_jvm s \<noteq> None"
    and sorted: "sorted_wrt (<) (map fst (g_callbacks s))"
    and dist: "distinct (map ?f (g_callbacks s))"
    and ok: "\<forall>p \<in> set (g_callbacks s). entry_ok s p"
    by (simp_all add: registry_ok_def registry_refs_def list_all_iff)
  from Some m' refs' have m: "g_callbacks s' = map_erase (g_callbacks s) k"
    and refs: "global_refs s' = (global_refs s)[bridge_instance c := None]"
    by simp_all
  have mem: "(k, c) \<in> set (g_callbacks s)"
    using Some by (rule map_find_Some_mem)
  have dk: "distinct (map fst (g_callbacks s))"
    using sorted by (rule sorted_keys_distinct)
  have ok': "entry_ok s' p" if "p \<in> set (g_callbacks s')" for p
  proof -
    from that have p: "p \<in> set (g_callbacks s)" and pk: "fst p \<noteq> k"
      unfolding m set_map_erase_distinct [OF dk] by simp_all
    have "?f p \<noteq> bridge_instance c"
    proof
      assume "?f p = bridge_instance c"
      then have "?f p = ?f (k, c)" by simp
      from distinct_refs_same_entry [OF dist p mem this] pk show False by simp
    qed
    moreover from ok p have "entry_ok s p" by blast
    ultimately show ?thesis
      by (auto simp: entry_ok_def deref_def refs split: if_splits)
  qed
  have "sorted_wrt (<) (map fst (g_callbacks s'))"
    unfolding m using sorted by (rule sorted_keys_erase)
  moreover have "distinct (map ?f (g_callbacks s'))"
    unfolding m using dist by (rule distinct_map_erase)
  ultimately show ?thesis
    using jvm jvm' ok' by (simp add: registry_ok_def registry_refs_def list_all_iff)
qed

lemma registry_ok_step:
  assumes "registry_ok s" and "step c s = Inr s'"
  shows "registry_ok s'"
proof (cases c)
  case (OnLoad vm)
  with assms(2) have s': "s' = snd (JNI_OnLoad vm s)" by simp
  show ?thesis
    unfolding s' by (rule registry_ok_cong [OF _ _ _ assms(1)]) (simp_all add: JNI_OnLoad_fields)
next
  case (Init r)
  with assms(2) have s': "s' = snd (nativeInit r s)" by simp
  show ?thesis
    unfolding s' by (rule registry_ok_frame [OF assms(1)]) (simp_all add: nativeInit_fields)
next
  case Shutdown
  with assms(2) have s': "s' = nativeShutdown s" by simp
  from assms(1) show ?thesis
    unfolding s' by (simp add: registry_ok_def registry_refs_def nativeShutdown_fields)
next
  case (Connect h p pr tls ce k ca r)
  with assms(2) have s': "s' = snd (nativeConnect h p pr tls ce k ca r s)" by simp
  show ?thesis
    unfolding s' by (rule registry_ok_frame [OF assms(1)]) (simp_all add: nativeConnect_fields)
next
  case (Disconnect i r)
  with assms(2) have s': "s' = snd (nativeDisconnect i r s)" by simp
  show ?thesis
    unfolding s'
    by (rule registry_ok_erase [OF assms(1), of _ i]) (simp_all add: nativeDisconnect_fields)
next
  case (SendCot i x r)
  with assms(2) have s': "s' = snd (nativeSendCot i x r s)" by simp
  show ?thesis
    unfolding s' by (rule registry_ok_frame [OF assms(1)]) (simp_all add: nativeSendCot_fields)
next
  case (RegisterCallback thiz i r)
  with assms(2) have s': "s' = snd (nativeRegisterCallback thiz i r s)" by simp
  show ?thesis
    unfolding s' using assms(1) by (rule registry_ok_register)
next
  case (UnregisterCallback i r)
  with assms(2) have s': "s' = snd (nativeUnregisterCallback i r s)" by simp
  show ?thesis
    unfolding s'
    by (rule registry_ok_erase [OF assms(1), of _ i])
      (simp_all add: nativeUnregisterCallback_fields)
next
  case (GetStatus env i a)
  with assms(2) have s': "s' = snd (nativeGetStatus env i a s)" by simp
  show ?thesis
    unfolding s' by (rule registry_ok_frame [OF assms(1)]) (simp_all add: nativeGetStatus_fields)
next
  case (Version v)
  with assms(2) have s': "s' = snd (nativeVersion v s)" by simp
  show ?thesis
    unfolding s' by (rule registry_ok_frame [OF assms(1)]) (simp_all add: nativeVersion_fields)
next
  case (CotCallback t a i x)
  with assms have run: "cot_callback_bridge t a i x s = Inr s'"
    by simp
  from dispatch_attachment [OF run] show ?thesis
    by (auto intro: registry_ok_frame [OF assms(1)])
qed

lemma registry_ok_loaded: "registry_ok (snd (JNI_OnLoad vm (initial_state ts)))"
  by (simp add: registry_ok_def registry_refs_def JNI_OnLoad_fields initial_state_def)

lemma registry_ok_run:
  "registry_ok s \<Longrightarrow> run calls s = Inr s' \<Longrightarrow> registry_ok s'"
proof (induction calls arbitrary: s)
  case Nil
  then show ?case by simp
next
  case (Cons c calls)
  then show ?case
    by (auto split: sum.splits dest: registry_ok_step)
qed

lemma run_returns:
  "registry_ok s \<Longrightarrow> \<not> isl (run calls s)"
proof (induction calls arbitrary: s)
  case Nil
  then show ?case by simp
next
  case (Cons c calls)
  have "\<not> isl (step c s)"
    using dispatch_returns [OF Cons.prems] by (cases c) simp_all
  then obtain s1 where s1: "step c s = Inr s1"
    by (cases "step c s") simp_all
  from registry_ok_step [OF Cons.prems s1] Cons.IH s1 show ?case
    by simp
qed

subsection \<open>References are deleted only through the registry\<close>

lemma frame_traces:
  "\<exists>evs. trace (snd (JNI_OnLoad vm s)) = trace s @ evs \<and> released evs = []"
  "\<exists>evs. trace (snd (nativeInit result s)) = trace s @ evs \<and> released evs = []"
  "\<exists>evs. trace (snd (nativeConnect host port protocol useTls certPem keyPem caPem r s)) =
           trace s @ evs \<and> released evs = []"
  "\<exists>evs. trace (snd (nativeSendCot connectionId cotXml result s)) = trace s @ evs \<and>
           released evs = []"
  "\<exists>evs. trace (snd (nativeGetStatus env connectionId a s)) = trace s @ evs \<and>
           released evs = []"
  "\<exists>evs. trace (snd (nativeVersion version s)) = trace s @ evs \<and> released evs = []"
  by (simp_all add: JNI_OnLoad_def nativeInit_def nativeConnect_def nativeSendCot_def
      nativeGetStatus_def nativeVersion_def log_defs Let_def)

lemma registry_refs_cong:
  "g_callbacks s' = g_callbacks s \<Longrightarrow> registry_refs s' = registry_refs s"
  by (simp add: registry_refs_def)

text \<open>
  A call that changes neither registry nor references and deletes nothing satisfies
  the summary below trivially.
\<close>

lemma quiet_step:
  assumes "g_callbacks s' = g_callbacks s" and "global_refs s' = global_refs s"
    and "\<exists>evs. trace s' = trace s @ evs \<and> released evs = []"
  shows "\<exists>evs. trace s' = trace s @ evs \<and>
           set (released evs) \<subseteq> set (registry_refs s) \<and>
           set (registry_refs s') \<subseteq> insert (length (global_refs s)) (set (registry_refs s)) \<and>
           (\<forall>r. r \<notin> set (released evs) \<longrightarrow> r < length (global_refs s) \<longrightarrow>
                deref s' r = deref s r)"
  using assms by (auto simp: registry_refs_cong [OF assms(1)] deref_cong [OF assms(2)])

lemma erase_step:
  assumes m': "g_callbacks s' =
       (case map_find (g_callbacks s) k of None \<Rightarrow> g_callbacks s
        | Some context \<Rightarrow> map_erase (g_callbacks s) k)"
    and refs': "global_refs s' =
       (case map_find (g_callbacks s) k of None \<Rightarrow> global_refs s
        | Some context \<Rightarrow> (global_refs s)[bridge_instance context := None])"
    and tr: "\<exists>evs. trace s' = trace s @ evs \<and>
       released evs =
         (case map_find (g_callbacks s) k of None \<Rightarrow> []
          | Some context \<Rightarrow> [bridge_instance context])"
  shows "\<exists>evs. trace s' = trace s @ evs \<and>
           set (released evs) \<subseteq> set (registry_refs s) \<and>
           set (registry_refs s') \<subseteq> insert (length (global_refs s)) (set (registry_refs s)) \<and>
           (\<forall>r. r \<notin> set (released evs) \<longrightarrow> r < length (global_refs s) \<longrightarrow>
                deref s' r = deref s r)"
proof (cases "map_find (g_callbacks s) k")
  case None
  with assms show ?thesis
    by (intro quiet_step) auto
next
  case (Some c)
  from tr Some obtain evs where
    t: "trace s' = trace s @ evs" and rel: "released evs = [bridge_instance c]"
    by auto
  have mem: "(k, c) \<in> set (g_callbacks s)"
    using Some by (rule map_find_Some_mem)
  then have in_refs: "bridge_instance c \<in> set (registry_refs s)"
    by (force simp: registry_refs_def)
  have sub: "set (registry_refs s') \<subseteq> set (registry_refs s)"
    using set_map_erase [of "g_callbacks s" k] Some m' by (auto simp: registry_refs_def)
  have keep: "deref s' r = deref s r" if "r \<noteq> bridge_instance c" for r
    using that Some refs' by (simp add: deref_def)
  from t in_refs sub keep show ?thesis
    by (intro exI [of _ evs]) (auto simp: rel)
qed

lemma step_releases:
  assumes "step c s = Inr s'"
  shows "\<exists>evs. trace s' = trace s @ evs \<and>
           set (released evs) \<subseteq> set (registry_refs s) \<and>
           set (registry_refs s') \<subseteq> insert (length (global_refs s)) (set (registry_refs s)) \<and>
           (\<forall>r. r \<notin> set (released evs) \<longrightarrow> r < length (global_refs s) \<longrightarrow>
                deref s' r = deref s r)"
proof (cases c)
  case (OnLoad vm)
  with assms have s': "s' = snd (JNI_OnLoad vm s)" by simp
  show ?thesis
    unfolding s' by (rule quiet_step) (simp_all add: JNI_OnLoad_fields frame_traces)
next
  case (Init r)
  with assms have s': "s' = snd (nativeInit r s)" by simp
  show ?thesis
    unfolding s' by (rule quiet_step) (simp_all add: nativeInit_fields frame_traces)
next
  case Shutdown
  with assms have s': "s' = nativeShutdown s" by simp
  let ?evs = "[Log ANDROID_LOG_INFO ''nativeShutdown called'' [], AcquireEv, ScanEv] @
       map (\<lambda>p. DeleteGlobalRefEv (bridge_instance (snd p))) (g_callbacks s) @
       [ClearEv, ReleaseEv, CoreEv omnitak_shutdown,
        Log ANDROID_LOG_INFO ''Shutdown complete'' []]"
  have "trace s' = trace s @ ?evs"
    unfolding s' by (simp add: nativeShutdown_fields)
  moreover have "released ?evs = registry_refs s"
    by (simp add: registry_refs_def)
  moreover have "registry_refs s' = []"
    unfolding s' by (simp add: registry_refs_def nativeShutdown_fields)
  moreover have "deref s' r = deref s r" if "r \<notin> set (registry_refs s)" for r
    unfolding s' using that by (simp add: nativeShutdown_deref)
  ultimately show ?thesis
    by (intro exI [of _ ?evs]) simp
next
  case (Connect h p pr tls ce k ca r)
  with assms have s': "s' = snd (nativeConnect h p pr tls ce k ca r s)" by simp
  show ?thesis
    unfolding s' by (rule quiet_step) (simp_all add: nativeConnect_fields frame_traces)
next
  case (Disconnect i r)
  with assms have s': "s' = snd (nativeDisconnect i r s)" by simp
  have "\<exists>evs. trace (snd (nativeDisconnect i r s)) = trace s @ evs \<and>
       released evs =
         (case map_find (g_callbacks s) i of None \<Rightarrow> []
          | Some context \<Rightarrow> [bridge_instance context])"
    by (simp add: nativeDisconnect_fields split: option.splits)
  then show ?thesis
    unfolding s'
    by (rule erase_step [of _ s i, rotated 2]) (simp_all add: nativeDisconnect_fields)
next
  case (SendCot i x r)
  with assms have s': "s' = snd (nativeSendCot i x r s)" by simp
  show ?thesis
    unfolding s' by (rule quiet_step) (simp_all add: nativeSendCot_fields frame_traces)
next
  case (RegisterCallback thiz i r)
  with assms have s': "s' = snd (nativeRegisterCallback thiz i r s)" by simp
  let ?evs = "[Log ANDROID_LOG_INFO ''nativeRegisterCallback called for connection %lld''
          [Num (sint i)],
        AcquireEv,
        NewGlobalRefEv (length (global_refs s)) thiz,
        StoreEv i \<lparr>jvm = g_jvm s, bridge_instance = length (global_refs s)\<rparr>,
        ReleaseEv,
        CoreEv (omnitak_register_callback i),
        if r = 0 then Log ANDROID_LOG_INFO ''Callback registered successfully'' []
        else Log ANDROID_LOG_ERROR ''Failed to register callback: %d'' [Num (sint r)]]"
  have "trace s' = trace s @ ?evs"
    unfolding s' by (simp add: nativeRegisterCallback_fields)
  moreover have "released ?evs = []"
    by simp
  moreover have "set (registry_refs s') \<subseteq> insert (length (global_refs s)) (set (registry_refs s))"
    unfolding s'
    using set_map_assign [of "g_callbacks s" i "\<lparr>jvm = g_jvm s, bridge_instance = length (global_refs s)\<rparr>"]
    by (auto simp: registry_refs_def nativeRegisterCallback_fields)
  moreover have "deref s' x = deref s x" if "x < length (global_refs s)" for x
    unfolding s' using that by (simp add: deref_def nativeRegisterCallback_fields nth_append)
  ultimately show ?thesis
    by (intro exI [of _ ?evs]) simp
next
  case (UnregisterCallback i r)
  with assms have s': "s' = snd (nativeUnregisterCallback i r s)" by simp
  have "\<exists>evs. trace (snd (nativeUnregisterCallback i r s)) = trace s @ evs \<and>
       released evs =
         (case map_find (g_callbacks s) i of None \<Rightarrow> []
          | Some context \<Rightarrow> [bridge_instance context])"
    by (simp add: nativeUnregisterCallback_fields split: option.splits)
  then show ?thesis
    unfolding s'
    by (rule erase_step [of _ s i, rotated 2]) (simp_all add: nativeUnregisterCallback_fields)
next
  case (GetStatus env i a)
  with assms have s': "s' = snd (nativeGetStatus env i a s)" by simp
  show ?thesis
    unfolding s' by (rule quiet_step) (simp_all add: nativeGetStatus_fields frame_traces)
next
  case (Version v)
  with assms have s': "s' = snd (nativeVersion v s)" by simp
  show ?thesis
    unfolding s' by (rule quiet_step) (simp_all add: nativeVersion_fields frame_traces)
next
  case (CotCallback t a i x)
  with assms have run: "cot_callback_bridge t a i x s = Inr s'"
    by simp
  from dispatch_attachment [OF run] show ?thesis
    by (intro quiet_step) auto
qed

lemma step_keeps_leaked:
  assumes "leaked s r" and "step c s = Inr s'"
  shows "leaked s' r \<and> (\<exists>evs. trace s' = trace s @ evs \<and> r \<notin> set (released evs))"
proof -
  from assms(1) have live: "deref s r \<noteq> None" and out: "r \<notin> set (registry_refs s)"
    by (simp_all add: leaked_def)
  from live have lt: "r < length (global_refs s)"
    by (auto simp: deref_def split: if_splits)
  from step_releases [OF assms(2)] obtain evs where
    t: "trace s' = trace s @ evs"
    and rel: "set (released evs) \<subseteq> set (registry_refs s)"
    and refs: "set (registry_refs s') \<subseteq> insert (length (global_refs s)) (set (registry_refs s))"
    and keep: "\<forall>r. r \<notin> set (released evs) \<longrightarrow> r < length (global_refs s) \<longrightarrow>
                deref s' r = deref s r"
    by blast
  from rel out have nr: "r \<notin> set (released evs)" by blast
  with keep lt live have "deref s' r \<noteq> None" by simp
  moreover from refs out lt have "r \<notin> set (registry_refs s')" by auto
  ultimately show ?thesis
    using t nr by (auto simp: leaked_def)
qed

lemma run_keeps_leaked:
  assumes "leaked s r" and "run calls s = Inr s'"
  shows "leaked s' r \<and> (\<exists>evs. trace s' = trace s @ evs \<and> r \<notin> set (released evs))"
  using assms
proof (induction calls arbitrary: s)
  case Nil
  then show ?case by simp
next
  case (Cons c calls)
  from Cons.prems(2) obtain s1 where s1: "step c s = Inr s1" and rest: "run calls s1 = Inr s'"
    by (auto split: sum.splits)
  from step_keeps_leaked [OF Cons.prems(1) s1] obtain evs1 where
    l1: "leaked s1 r" and t1: "trace s1 = trace s @ evs1" "r \<notin> set (released evs1)"
    by blast
  from Cons.IH [OF l1 rest] obtain evs2 where
    l2: "leaked s' r" and t2: "trace s' = trace s1 @ evs2" "r \<notin> set (released evs2)"
    by blast
  from t1 t2 have "trace s' = trace s @ (evs1 @ evs2) \<and> r \<notin> set (released (evs1 @ evs2))"
    by simp
  with l2 show ?case by blast
qed

lemma count_list_distinct: "distinct xs \<Longrightarrow> x \<in> set xs \<Longrightarrow> count_list xs x = 1"
  by (induction xs) (auto simp: count_list_0_iff)

lemma overwritten_ref_unreachable:
  assumes "registry_ok s" and "map_find (g_callbacks s) k = Some old"
    and "bridge_instance v \<noteq> bridge_instance old"
  shows "bridge_instance old \<notin> (\<lambda>p. bridge_instance (snd p)) ` set (map_assign (g_callbacks s) k v)"
proof
  let ?f = "\<lambda>p::uint64_t \<times> CallbackContext. bridge_instance (snd p)"
  assume "bridge_instance old \<in> ?f ` set (map_assign (g_callbacks s) k v)"
  then obtain p where p: "p \<in> set (map_assign (g_callbacks s) k v)" and fp: "?f p = bridge_instance old"
    by auto
  from assms(1) have sorted: "sorted_wrt (<) (map fst (g_callbacks s))"
    and dist: "distinct (map ?f (g_callbacks s))"
    by (simp_all add: registry_ok_def registry_refs_def)
  have mem: "(k, old) \<in> set (g_callbacks s)"
    using assms(2) by (rule map_find_Some_mem)
  from p have "p = (k, v) \<or> (p \<in> set (g_callbacks s) \<and> fst p \<noteq> k)"
    unfolding set_map_assign_sorted [OF sorted] by simp
  then show False
  proof
    assume "p = (k, v)"
    with fp assms(3) show False by simp
  next
    assume q: "p \<in> set (g_callbacks s) \<and> fst p \<noteq> k"
    from fp have "?f p = ?f (k, old)" by simp
    from distinct_refs_same_entry [OF dist _ mem this] q show False by simp
  qed
qed

lemma erase_entry_effect:
  assumes ok: "registry_ok s" and e: "map_find (g_callbacks s) connection_id = Some context"
    and m': "g_callbacks s' =
       (case map_find (g_callbacks s) k of None \<Rightarrow> g_callbacks s
        | Some c \<Rightarrow> map_erase (g_callbacks s) k)"
    and refs': "global_refs s' =
       (case map_find (g_callbacks s) k of None \<Rightarrow> global_refs s
        | Some c \<Rightarrow> (global_refs s)[bridge_instance c := None])"
    and rel: "released (new_events s s') =
       (case map_find (g_callbacks s) k of None \<Rightarrow> [] | Some c \<Rightarrow> [bridge_instance c])"
  shows "if k = connection_id
         then map_find (g_callbacks s') connection_id = None \<and>
              count_list (released (new_events s s')) (bridge_instance context) = 1 \<and>
              deref s' (bridge_instance context) = None
         else map_find (g_callbacks s') connection_id \<noteq> None \<and>
              bridge_instance context \<notin> set (released (new_events s s')) \<and>
              deref s' (bridge_instance context) = deref s (bridge_instance context)"
proof -
  let ?f = "\<lambda>p::uint64_t \<times> CallbackContext. bridge_instance (snd p)"
  from ok have dk: "distinct (map fst (g_callbacks s))"
    and dist: "distinct (map ?f (g_callbacks s))"
    by (simp_all add: registry_ok_def registry_refs_def sorted_keys_distinct)
  have mem: "(connection_id, context) \<in> set (g_callbacks s)"
    using e by (rule map_find_Some_mem)
  show ?thesis
  proof (cases "k = connection_id")
    case True
    with e m' refs' rel show ?thesis
      by (simp add: map_find_erase [OF dk] deref_def)
  next
    case False
    show ?thesis
    proof (cases "map_find (g_callbacks s) k")
      case None
      with False e m' refs' rel show ?thesis
        by (simp add: deref_def)
    next
      case (Some c)
      have "(k, c) \<in> set (g_callbacks s)"
        using Some by (rule map_find_Some_mem)
      from distinct_refs_same_entry [OF dist this mem] False
      have "bridge_instance c \<noteq> bridge_instance context"
        by auto
      with False Some e m' refs' rel show ?thesis
        by (simp add: map_find_erase [OF dk] deref_def)
    qed
  qed
qed

subsection \<open>Calls on an empty registry\<close>

lemma quiet_traces:
  "\<exists>evs. trace (snd (JNI_OnLoad vm s)) = trace s @ evs \<and> invocations evs = []"
  "\<exists>evs. trace (snd (nativeInit result s)) = trace s @ evs \<and> invocations evs = []"
  "\<exists>evs. trace (snd (nativeConnect host port protocol useTls certPem keyPem caPem r s)) =
           trace s @ evs \<and> invocations evs = []"
  "\<exists>evs. trace (snd (nativeSendCot connectionId cotXml result s)) = trace s @ evs \<and>
           invocations evs = []"
  "\<exists>evs. trace (snd (nativeGetStatus env connectionId a s)) = trace s @ evs \<and>
           invocations evs = []"
  "\<exists>evs. trace (snd (nativeVersion version s)) = trace s @ evs \<and> invocations evs = []"
  by (simp_all add: JNI_OnLoad_def nativeInit_def nativeConnect_def nativeSendCot_def
      nativeGetStatus_def nativeVersion_def log_defs Let_def)

lemma step_on_empty_registry:
  assumes "g_callbacks s = []" and "\<not> is_register c"
  shows "\<exists>s' evs. step c s = Inr s' \<and> trace s' = trace s @ evs \<and>
           invocations evs = [] \<and> g_callbacks s' = []"
proof (cases c)
  case (OnLoad vm)
  with assms(1) quiet_traces(1) [of vm s] show ?thesis
    by (simp add: JNI_OnLoad_fields)
next
  case (Init r)
  with assms(1) quiet_traces(2) [of r s] show ?thesis
    by (simp add: nativeInit_fields)
next
  case Shutdown
  with assms(1) show ?thesis
    by (simp add: nativeShutdown_fields)
next
  case (Connect h p pr tls ce k ca r)
  with assms(1) quiet_traces(3) [of h p pr tls ce k ca r s] show ?thesis
    by (simp add: nativeConnect_fields)
next
  case (Disconnect i r)
  with assms(1) show ?thesis
    by (simp add: nativeDisconnect_fields)
next
  case (SendCot i x r)
  with assms(1) quiet_traces(4) [of i x r s] show ?thesis
    by (simp add: nativeSendCot_fields)
next
  case (RegisterCallback thiz i r)
  with assms(2) show ?thesis
    by simp
next
  case (UnregisterCallback i r)
  with assms(1) show ?thesis
    by (simp add: nativeUnregisterCallback_fields)
next
  case (GetStatus env i a)
  with assms(1) quiet_traces(5) [of env i a s] show ?thesis
    by (simp add: nativeGetStatus_fields)
next
  case (Version v)
  with assms(1) quiet_traces(6) [of v s] show ?thesis
    by (simp add: nativeVersion_fields)
next
  case (CotCallback t a i x)
  with assms(1) show ?thesis
    by (simp add: cot_callback_bridge_def log_defs)
qed

lemma run_on_empty_registry:
  assumes "list_all (\<lambda>c. \<not> is_register c) calls" and "g_callbacks s = []"
  shows "\<exists>s' evs. run calls s = Inr s' \<and> trace s' = trace s @ evs \<and>
           invocations evs = [] \<and> g_callbacks s' = []"
  using assms
proof (induction calls arbitrary: s)
  case Nil
  then show ?case by simp
next
  case (Cons c calls)
  from Cons.prems(1) have c: "\<not> is_register c" and rest: "list_all (\<lambda>c. \<not> is_register c) calls"
    by simp_all
  from step_on_empty_registry [OF Cons.prems(2) c] obtain s1 evs1 where
    s1: "step c s = Inr s1" "trace s1 = trace s @ evs1"
      "invocations evs1 = []" "g_callbacks s1 = []"
    by blast
  from Cons.IH [OF rest s1(4)] obtain s2 evs2 where
    s2: "run calls s1 = Inr s2" "trace s2 = trace s1 @ evs2" "invocations evs2 = []"
      "g_callbacks s2 = []"
    by blast
  have "run (c # calls) s = Inr s2 \<and> trace s2 = trace s @ (evs1 @ evs2) \<and>
        invocations (evs1 @ evs2) = [] \<and> g_callbacks s2 = []"
    using s1 s2 by simp
  then show ?case by blast
qed

subsection \<open>Facts about the example states\<close>

lemma registered_entry:
  "map_find (g_callbacks registered_state) 42 = Some \<lparr>jvm = Some 1, bridge_instance = 0\<rparr>"
  "deref registered_state 0 = Some 7"
  "attached registered_state = {0}"
  by (simp_all add: registered_state_eq deref_def)

lemma registry_ok_registered: "registry_ok registered_state"
  by (simp add: registered_state_eq registry_ok_def registry_refs_def entry_ok_def deref_def)

lemma two_registered_state_fields:
  "g_callbacks two_registered_state =
     [(42, \<lparr>jvm = Some 1, bridge_instance = 0\<rparr>), (43, \<lparr>jvm = Some 1, bridge_instance = 1\<rparr>)]"
  "g_jvm two_registered_state = Some 1"
  "global_refs two_registered_state = [Some 7, Some 8]"
  "attached two_registered_state = {0}"
  "pending two_registered_state = (\<lambda>_. None)"
  by (simp_all add: two_registered_state_def nativeRegisterCallback_fields registered_state_eq)

lemma two_registered_entries:
  "map_find (g_callbacks two_registered_state) 42 = Some \<lparr>jvm = Some 1, bridge_instance = 0\<rparr>"
  "map_find (g_callbacks two_registered_state) 43 = Some \<lparr>jvm = Some 1, bridge_instance = 1\<rparr>"
  "deref two_registered_state 0 = Some 7"
  "deref two_registered_state 1 = Some 8"
  by (simp_all add: two_registered_state_fields deref_def)

lemma registry_ok_two_registered: "registry_ok two_registered_state"
  by (simp add: two_registered_state_fields registry_ok_def registry_refs_def entry_ok_def
      deref_def)

subsection \<open>The lock discipline of each call\<close>

lemma disciplined_free_append:
  "list_all (\<lambda>ev. \<not> is_lock_event ev \<and> \<not> is_registry_access ev) xs \<Longrightarrow>
   disciplined False (xs @ ys) = disciplined False ys"
proof (induction xs)
  case Nil
  then show ?case by simp
next
  case (Cons ev xs)
  then show ?case
    by (cases ev) simp_all
qed

lemma disciplined_deletes:
  "disciplined True (map (\<lambda>p. DeleteGlobalRefEv (f p)) m @ ys) = disciplined True ys"
  by (induction m) simp_all

lemma replay_append: "replay (xs @ ys) m = replay ys (replay xs m)"
  by (induction xs m rule: replay.induct) simp_all

lemma replay_free:
  "list_all (\<lambda>ev. \<not> is_lock_event ev \<and> \<not> is_registry_access ev) xs \<Longrightarrow> replay xs m = m"
proof (induction xs)
  case Nil
  then show ?case by simp
next
  case (Cons ev xs)
  then show ?case
    by (cases ev) simp_all
qed

lemma replay_deletes: "replay (map (\<lambda>p. DeleteGlobalRefEv (f p)) xs) m = m"
  by (induction xs) simp_all

lemma plain_traces:
  "\<exists>evs. trace (snd (JNI_OnLoad vm s)) = trace s @ evs \<and>
     list_all (\<lambda>ev. \<not> is_lock_event ev \<and> \<not> is_registry_access ev) evs"
  "\<exists>evs. trace (snd (nativeInit result s)) = trace s @ evs \<and>
     list_all (\<lambda>ev. \<not> is_lock_event ev \<and> \<not> is_registry_access ev) evs"
  "\<exists>evs. trace (snd (nativeConnect host port protocol useTls certPem keyPem caPem r s)) =
           trace s @ evs \<and>
     list_all (\<lambda>ev. \<not> is_lock_event ev \<and> \<not> is_registry_access ev) evs"
  "\<exists>evs. trace (snd (nativeSendCot connectionId cotXml result s)) = trace s @ evs \<and>
     list_all (\<lambda>ev. \<not> is_lock_event ev \<and> \<not> is_registry_access ev) evs"
  "\<exists>evs. trace (snd (nativeGetStatus env connectionId a s)) = trace s @ evs \<and>
     list_all (\<lambda>ev. \<not> is_lock_event ev \<and> \<not> is_registry_access ev) evs"
  "\<exists>evs. trace (snd (nativeVersion version s)) = trace s @ evs \<and>
     list_all (\<lambda>ev. \<not> is_lock_event ev \<and> \<not> is_registry_access ev) evs"
  by (simp_all add: JNI_OnLoad_def nativeInit_def nativeConnect_def nativeSendCot_def
      nativeGetStatus_def nativeVersion_def log_defs Let_def)

lemma plain_step:
  assumes "g_callbacks s' = g_callbacks s"
    and "\<exists>evs. trace s' = trace s @ evs \<and>
           list_all (\<lambda>ev. \<not> is_lock_event ev \<and> \<not> is_registry_access ev) evs"
  shows "disciplined False (new_events s s') \<and>
         g_callbacks s' = replay (new_events s s') (g_callbacks s)"
proof -
  from assms(2) obtain evs where t: "trace s' = trace s @ evs"
    and free: "list_all (\<lambda>ev. \<not> is_lock_event ev \<and> \<not> is_registry_access ev) evs"
    by blast
  from disciplined_free_append [OF free, of "[]"] replay_free [OF free] t assms(1)
  show ?thesis
    by simp
qed

lemma locked_replays:
  "g_callbacks (nativeShutdown s) = replay (new_events s (nativeShutdown s)) (g_callbacks s)"
  "g_callbacks (snd (nativeDisconnect connectionId result s)) =
     replay (new_events s (snd (nativeDisconnect connectionId result s))) (g_callbacks s)"
  "g_callbacks (snd (nativeRegisterCallback thiz connectionId result s)) =
     replay (new_events s (snd (nativeRegisterCallback thiz connectionId result s)))
       (g_callbacks s)"
  "g_callbacks (snd (nativeUnregisterCallback connectionId result s)) =
     replay (new_events s (snd (nativeUnregisterCallback connectionId result s)))
       (g_callbacks s)"
  by (simp_all add: new_events_def nativeShutdown_fields nativeDisconnect_fields
      nativeRegisterCallback_fields nativeUnregisterCallback_fields replay_append replay_deletes
      split: option.splits)

lemma locked_traces:
  "disciplined False (new_events s (nativeShutdown s))"
  "disciplined False (new_events s (snd (nativeDisconnect connectionId result s)))"
  "disciplined False (new_events s (snd (nativeRegisterCallback thiz connectionId result s)))"
  "disciplined False (new_events s (snd (nativeUnregisterCallback connectionId result s)))"
  by (simp_all add: new_events_def nativeShutdown_fields nativeDisconnect_fields
      nativeRegisterCallback_fields nativeUnregisterCallback_fields disciplined_deletes
      split: option.splits)

lemma deliver_free:
  assumes "deliver t a context connection_id cot_xml needDetach s = Inr s'"
  shows "\<exists>evs. trace s' = trace s @ evs \<and>
           list_all (\<lambda>ev. \<not> is_lock_event ev \<and> \<not> is_registry_access ev) evs"
  using assms
  by (auto simp: deliver_def jni_defs log_defs Let_def split: option.splits if_splits)

lemma dispatch_shape:
  assumes "cot_callback_bridge t a i x s = Inr s'"
  shows "\<exists>rest. new_events s s' =
           Log ANDROID_LOG_DEBUG ''CoT callback triggered for connection %llu'' [Num (uint i)] #
           AcquireEv # LookupEv i (map_find (g_callbacks s) i) #
           (case map_find (g_callbacks s) i of
              None \<Rightarrow>
                [Log ANDROID_LOG_ERROR ''No callback context found for connection %llu''
                   [Num (uint i)],
                 ReleaseEv]
            | Some context \<Rightarrow> ReleaseEv # rest) \<and>
           list_all (\<lambda>ev. \<not> is_lock_event ev \<and> \<not> is_registry_access ev) rest"
proof (cases "map_find (g_callbacks s) i")
  case None
  with assms show ?thesis
    by (auto simp: cot_callback_bridge_def Let_def log_defs new_events_def
        intro!: exI [of _ "[]"])
next
  case (Some ctx)
  let ?s = "emit ReleaseEv (emit (LookupEv i (Some ctx))
              (emit AcquireEv (LOGD ''CoT callback triggered for connection %llu'' [Num (uint i)] s)))"
  let ?s1 = "AttachCurrentThread t (LOGD ''Attaching to JVM for callback'' [] ?s)"
  from assms Some obtain vm where vm: "jvm ctx = Some vm"
    by (auto simp: cot_callback_bridge_def Let_def log_defs split: option.splits)
  have pre: "trace ?s = trace s @
      [Log ANDROID_LOG_DEBUG ''CoT callback triggered for connection %llu'' [Num (uint i)],
       AcquireEv, LookupEv i (Some ctx), ReleaseEv]"
    by (simp add: log_defs)
  consider (fail) "s' = LOGE ''Failed to attach to JVM'' []
                          (LOGD ''Attaching to JVM for callback'' [] ?s)"
    | (version) "s' = LOGE ''Failed to get JNI environment'' [] ?s"
    | (attach) "deliver t a ctx i x True ?s1 = Inr s'"
    | (direct) "deliver t a ctx i x False ?s = Inr s'"
    using assms Some vm
    by (auto simp: cot_callback_bridge_def Let_def log_defs split: if_splits)
  then show ?thesis
  proof cases
    case fail
    with Some pre show ?thesis
      by (simp add: new_events_def log_defs)
  next
    case version
    with Some pre show ?thesis
      by (simp add: new_events_def log_defs)
  next
    case attach
    from deliver_free [OF this] obtain evs where
      "trace s' = trace ?s1 @ evs"
      "list_all (\<lambda>ev. \<not> is_lock_event ev \<and> \<not> is_registry_access ev) evs"
      by blast
    with Some pre show ?thesis
      by (simp add: new_events_def log_defs AttachCurrentThread_def)
  next
    case direct
    from deliver_free [OF this] obtain evs where
      "trace s' = trace ?s @ evs"
      "list_all (\<lambda>ev. \<not> is_lock_event ev \<and> \<not> is_registry_access ev) evs"
      by blast
    with Some pre show ?thesis
      by (simp add: new_events_def log_defs)
  qed
qed

lemma step_disciplined:
  assumes "step c s = Inr s'"
  shows "disciplined False (new_events s s') \<and>
         g_callbacks s' = replay (new_events s s') (g_callbacks s)"
proof (cases c)
  case (OnLoad vm)
  with assms have s': "s' = snd (JNI_OnLoad vm s)" by simp
  show ?thesis
    unfolding s' by (rule plain_step) (simp_all add: JNI_OnLoad_fields plain_traces)
next
  case (Init r)
  with assms have s': "s' = snd (nativeInit r s)" by simp
  show ?thesis
    unfolding s' by (rule plain_step) (simp_all add: nativeInit_fields plain_traces)
next
  case Shutdown
  with assms locked_traces(1) [of s] locked_replays(1) [of s] show ?thesis
    by auto
next
  case (Connect h p pr tls ce k ca r)
  with assms have s': "s' = snd (nativeConnect h p pr tls ce k ca r s)" by simp
  show ?thesis
    unfolding s' by (rule plain_step) (simp_all add: nativeConnect_fields plain_traces)
next
  case (Disconnect i r)
  with assms locked_traces(2) [of s i r] locked_replays(2) [of i r s] show ?thesis
    by auto
next
  case (SendCot i x r)
  with assms have s': "s' = snd (nativeSendCot i x r s)" by simp
  show ?thesis
    unfolding s' by (rule plain_step) (simp_all add: nativeSendCot_fields plain_traces)
next
  case (RegisterCallback thiz i r)
  with assms locked_traces(3) [of s thiz i r] locked_replays(3) [of thiz i r s] show ?thesis
    by auto
next
  case (UnregisterCallback i r)
  with assms locked_traces(4) [of s i r] locked_replays(4) [of i r s] show ?thesis
    by auto
next
  case (GetStatus env i a)
  with assms have s': "s' = snd (nativeGetStatus env i a s)" by simp
  show ?thesis
    unfolding s' by (rule plain_step) (simp_all add: nativeGetStatus_fields plain_traces)
next
  case (Version v)
  with assms have s': "s' = snd (nativeVersion v s)" by simp
  show ?thesis
    unfolding s' by (rule plain_step) (simp_all add: nativeVersion_fields plain_traces)
next
  case (CotCallback t a i x)
  with assms have run: "cot_callback_bridge t a i x s = Inr s'"
    by simp
  from dispatch_shape [OF run] obtain rest where
    shape: "new_events s s' =
           Log ANDROID_LOG_DEBUG ''CoT callback triggered for connection %llu'' [Num (uint i)] #
           AcquireEv # LookupEv i (map_find (g_callbacks s) i) #
           (case map_find (g_callbacks s) i of
              None \<Rightarrow>
                [Log ANDROID_LOG_ERROR ''No callback context found for connection %llu''
                   [Num (uint i)],
                 ReleaseEv]
            | Some context \<Rightarrow> ReleaseEv # rest)"
    and free: "list_all (\<lambda>ev. \<not> is_lock_event ev \<and> \<not> is_registry_access ev) rest"
    by blast
  from dispatch_attachment [OF run] have same: "g_callbacks s' = g_callbacks s"
    by blast
  from disciplined_free_append [OF free, of "[]"] have "disciplined False rest"
    by simp
  with replay_free [OF free] same show ?thesis
    unfolding shape by (simp split: option.splits)
qed

section \<open>The claims\<close>

text \<open>
  C1, as amended. The claim as stated fails: a registered identifier is not enough, since
  the source returns before the call when the thread cannot be attached, when \<open>GetEnv\<close>
  reports another error, and when \<open>GetMethodID\<close> does not find \<open>onCotReceived\<close>.
  Amended: when the registry entry of the identifier holds a virtual machine and a live
  global reference to object \<open>T\<close>, the thread is attached and the machine supports the
  requested JNI version, or the thread is not attached and \<open>AttachCurrentThread\<close>
  succeeds, and \<open>GetMethodID\<close> finds the method, then \<open>cot_callback_bridge\<close> returns
  and has called \<open>onCotReceived\<close> on \<open>T\<close> exactly once, with the identifier and
  \<open>string_to_jstring\<close> of the payload, and has made no other call into Java.
\<close>

theorem dispatch_delivers_once:
  assumes "map_find (g_callbacks s) connection_id = Some context"
    and "jvm context = Some vm"
    and "deref s (bridge_instance context) = Some T"
    and "if t \<in> attached s then version_supported a else attach_status a = 0"
    and "method_found a"
  shows "\<not> isl (cot_callback_bridge t a connection_id cot_xml s) \<and>
         delivered s (cot_callback_bridge t a connection_id cot_xml s) =
           [CallVoidMethodEv T ''onCotReceived'' ''(JLjava/lang/String;)V'' connection_id
              (string_to_jstring cot_xml)]"
  using dispatch_calls [OF assms, of cot_xml]
  by (auto simp: delivered_def)

theorem dispatch_delivers_once_witness:
  "map_find (g_callbacks registered_state) 42 = Some \<lparr>jvm = Some 1, bridge_instance = 0\<rparr> \<and>
   deref registered_state 0 = Some 7 \<and>
   5 \<notin> attached registered_state \<and> attach_status vm_ok = 0 \<and> method_found vm_ok \<and>
   \<not> isl (cot_callback_bridge 5 vm_ok 42 (Some ''hello'') registered_state) \<and>
   delivered registered_state (cot_callback_bridge 5 vm_ok 42 (Some ''hello'') registered_state) =
     [CallVoidMethodEv 7 ''onCotReceived'' ''(JLjava/lang/String;)V'' 42 (Some ''hello'')]"
  using dispatch_delivers_once [of registered_state 42 "\<lparr>jvm = Some 1, bridge_instance = 0\<rparr>" 1 7 5
      vm_ok "Some ''hello''"]
  by (simp add: registered_entry vm_ok_def string_to_jstring_def)

text \<open>
  The claim C1 as stated is false at this input: connection 42 is registered with object
  7, the callback runs on thread 5, which is not attached, and \<open>AttachCurrentThread\<close>
  fails; \<open>cot_callback_bridge\<close> returns and has called nothing.
\<close>

theorem dispatch_attach_failure_counterexample:
  "map_find (g_callbacks registered_state) 42 = Some \<lparr>jvm = Some 1, bridge_instance = 0\<rparr> \<and>
   deref registered_state 0 = Some 7 \<and>
   \<not> isl (cot_callback_bridge 5 vm_attach_fails 42 (Some ''hello'') registered_state) \<and>
   delivered registered_state
     (cot_callback_bridge 5 vm_attach_fails 42 (Some ''hello'') registered_state) = []"
  by (simp add: registered_entry cot_callback_bridge_def vm_attach_fails_def vm_ok_def
      delivered_def new_events_def jni_defs log_defs Let_def)

text \<open>
  C2. For a connection identifier with no registry entry at the time of the call,
  \<open>cot_callback_bridge\<close> returns without a fault, and the state it returns is the state
  it was given with five events added to the trace: the debug line that announces the
  callback, the locking of the mutex, the lookup that finds nothing, the error line that
  reports the missing context, and the unlocking. Hence it attaches no thread, calls no
  Java method and leaves the registry and the references as they were.
\<close>

theorem dispatch_unregistered_noop:
  assumes "map_find (g_callbacks s) connection_id = None"
  shows "cot_callback_bridge t a connection_id cot_xml s =
           Inr (s\<lparr>trace := trace s @
                  [Log ANDROID_LOG_DEBUG ''CoT callback triggered for connection %llu''
                     [Num (uint connection_id)],
                   AcquireEv,
                   LookupEv connection_id None,
                   Log ANDROID_LOG_ERROR ''No callback context found for connection %llu''
                     [Num (uint connection_id)],
                   ReleaseEv]\<rparr>)"
  using assms by (simp add: cot_callback_bridge_def log_defs emit_def)

theorem dispatch_unregistered_noop_witness:
  "map_find (g_callbacks registered_state) 99 = None \<and>
   cot_callback_bridge 5 vm_ok 99 (Some ''x'') registered_state =
     Inr (registered_state\<lparr>trace := trace registered_state @
            [Log ANDROID_LOG_DEBUG ''CoT callback triggered for connection %llu'' [Num 99],
             AcquireEv,
             LookupEv 99 None,
             Log ANDROID_LOG_ERROR ''No callback context found for connection %llu'' [Num 99],
             ReleaseEv]\<rparr>) \<and>
   delivered registered_state (cot_callback_bridge 5 vm_ok 99 (Some ''x'') registered_state) = []"
proof -
  have miss: "map_find (g_callbacks registered_state) 99 = None"
    by (simp add: registered_state_eq)
  show ?thesis
    using dispatch_unregistered_noop [OF miss, of 5 vm_ok "Some ''x''"] miss
    by (simp add: delivered_def invocations_def)
qed

text \<open>
  C3. From any state, \<open>nativeRegisterCallback\<close> for an object followed by
  \<open>nativeUnregisterCallback\<close> for the same identifier creates exactly one global
  reference, the one stored in the registry entry and referring to that object, and
  deletes exactly that reference exactly once, whatever status codes the core returns.
\<close>

theorem register_then_unregister_releases_once:
  "(let r = length (global_refs s);
        s1 = snd (nativeRegisterCallback thiz connectionId res1 s);
        s2 = snd (nativeUnregisterCallback connectionId res2 s1)
    in deref s r = None \<and> deref s1 r = Some thiz \<and>
       map_find (g_callbacks s1) connectionId = Some \<lparr>jvm = g_jvm s, bridge_instance = r\<rparr> \<and>
       created (new_events s s2) = [(r, thiz)] \<and>
       released (new_events s s2) = [r] \<and>
       deref s2 r = None)"
  by (simp add: Let_def nativeRegisterCallback_fields nativeUnregisterCallback_fields
      map_find_assign new_events_def deref_def)

theorem register_then_unregister_releases_once_witness:
  "created (new_events loaded_state
      (snd (nativeUnregisterCallback 42 0 (snd (nativeRegisterCallback 7 42 0 loaded_state))))) =
     [(0, 7)] \<and>
   released (new_events loaded_state
      (snd (nativeUnregisterCallback 42 0 (snd (nativeRegisterCallback 7 42 0 loaded_state))))) =
     [0] \<and>
   deref (snd (nativeRegisterCallback 7 42 0 loaded_state)) 0 = Some 7 \<and>
   deref (snd (nativeUnregisterCallback 42 0 (snd (nativeRegisterCallback 7 42 0 loaded_state)))) 0 =
     None"
  using register_then_unregister_releases_once [of loaded_state 7 42 0 0]
  by (simp add: Let_def loaded_state_eq)

text \<open>
  C4. A run of \<open>cot_callback_bridge\<close> on a well-formed registry returns, and whenever a
  run returns (by whichever exit) the set of attached threads is the one it started
  with. The attachment events of the run are none at all, or, when the thread was not
  attached, the identifier has an entry and \<open>AttachCurrentThread\<close> succeeded, exactly one
  attach followed by one detach of that thread: a thread that was already attached is
  never detached.
\<close>

theorem dispatch_restores_attachment:
  "(registry_ok s \<longrightarrow> \<not> isl (cot_callback_bridge t a connection_id cot_xml s)) \<and>
   (\<forall>s'. cot_callback_bridge t a connection_id cot_xml s = Inr s' \<longrightarrow>
      attached s' = attached s \<and>
      filter is_attachment (new_events s s') =
        (if t \<notin> attached s \<and> map_find (g_callbacks s) connection_id \<noteq> None \<and>
            attach_status a = 0
         then [AttachEv t, DetachEv t] else []))"
proof (intro conjI allI impI)
  assume "registry_ok s"
  then show "\<not> isl (cot_callback_bridge t a connection_id cot_xml s)"
    by (rule dispatch_returns)
next
  fix s'
  assume run: "cot_callback_bridge t a connection_id cot_xml s = Inr s'"
  from dispatch_attachment [OF run] show "attached s' = attached s"
    by auto
  from dispatch_attachment [OF run] show
    "filter is_attachment (new_events s s') =
        (if t \<notin> attached s \<and> map_find (g_callbacks s) connection_id \<noteq> None \<and>
            attach_status a = 0
         then [AttachEv t, DetachEv t] else [])"
    by (auto simp: new_events_def)
qed

theorem dispatch_restores_attachment_witness:
  "registry_ok registered_state \<and>
   \<not> isl (cot_callback_bridge 5 vm_ok 42 (Some ''hello'') registered_state) \<and>
   5 \<notin> attached registered_state \<and>
   attached (projr (cot_callback_bridge 5 vm_ok 42 (Some ''hello'') registered_state)) = {0} \<and>
   filter is_attachment (new_events registered_state
       (projr (cot_callback_bridge 5 vm_ok 42 (Some ''hello'') registered_state))) =
     [AttachEv 5, DetachEv 5]"
proof -
  let ?r = "cot_callback_bridge 5 vm_ok 42 (Some ''hello'') registered_state"
  note inst = dispatch_restores_attachment [of registered_state 5 vm_ok 42 "Some ''hello''"]
  from inst registry_ok_registered have ret: "\<not> isl ?r"
    by blast
  then have "?r = Inr (projr ?r)"
    by (cases ?r) simp_all
  with inst have "attached (projr ?r) = attached registered_state \<and>
      filter is_attachment (new_events registered_state (projr ?r)) =
        (if 5 \<notin> attached registered_state \<and> map_find (g_callbacks registered_state) 42 \<noteq> None \<and>
            attach_status vm_ok = 0
         then [AttachEv 5, DetachEv 5] else [])"
    by blast
  with ret registry_ok_registered show ?thesis
    by (simp add: registered_entry vm_ok_def)
qed

text \<open>
  C5. When a run of \<open>cot_callback_bridge\<close> reaches the call and \<open>onCotReceived\<close> throws,
  the run still returns; the exception has been described and cleared, so that none is
  pending on the thread at the return; the registry, \<open>g_jvm\<close>, the global references and
  the attached threads are as before. Whatever callback runs next, for any identifier,
  thread and answers of the virtual machine, faults or returns and calls into Java
  exactly as it would have done before the run that threw; in particular, for any
  registered identifier it returns and calls \<open>onCotReceived\<close> on that identifier's
  object exactly once whenever the thread is or can be attached and the method is found.
\<close>

theorem callback_fault_contained:
  assumes "map_find (g_callbacks s) connection_id = Some context"
    and "jvm context = Some vm"
    and "deref s (bridge_instance context) = Some T"
    and "if t \<in> attached s then version_supported a else attach_status a = 0"
    and "method_found a"
    and "callback_throws a = Some x"
  shows "\<exists>s'. cot_callback_bridge t a connection_id cot_xml s = Inr s' \<and>
           ExceptionDescribeEv x \<in> set (new_events s s') \<and>
           pending s' = (pending s)(t := None) \<and>
           g_callbacks s' = g_callbacks s \<and> g_jvm s' = g_jvm s \<and>
           global_refs s' = global_refs s \<and> attached s' = attached s \<and>
           (\<forall>t2 a2 id2 xml2.
              isl (cot_callback_bridge t2 a2 id2 xml2 s') =
                isl (cot_callback_bridge t2 a2 id2 xml2 s) \<and>
              delivered s' (cot_callback_bridge t2 a2 id2 xml2 s') =
                delivered s (cot_callback_bridge t2 a2 id2 xml2 s)) \<and>
           (\<forall>t2 a2 id2 xml2 context2 vm2 T2.
              map_find (g_callbacks s) id2 = Some context2 \<and> jvm context2 = Some vm2 \<and>
              deref s (bridge_instance context2) = Some T2 \<and>
              (if t2 \<in> attached s then version_supported a2 else attach_status a2 = 0) \<and>
              method_found a2 \<longrightarrow>
              \<not> isl (cot_callback_bridge t2 a2 id2 xml2 s') \<and>
              delivered s' (cot_callback_bridge t2 a2 id2 xml2 s') =
                [CallVoidMethodEv T2 ''onCotReceived'' ''(JLjava/lang/String;)V'' id2
                   (string_to_jstring xml2)])"
proof -
  from dispatch_throws [OF assms, of cot_xml] obtain s' evs where
    run: "cot_callback_bridge t a connection_id cot_xml s = Inr s'"
    and tr: "trace s' = trace s @ evs" and ev: "ExceptionDescribeEv x \<in> set evs"
    and pe: "pending s' = (pending s)(t := None)"
    by blast
  from dispatch_attachment [OF run] have same:
    "attached s' = attached s" "g_callbacks s' = g_callbacks s" "g_jvm s' = g_jvm s"
    "global_refs s' = global_refs s"
    by auto
  have later: "\<not> isl (cot_callback_bridge t2 a2 id2 xml2 s') \<and>
       delivered s' (cot_callback_bridge t2 a2 id2 xml2 s') =
         [CallVoidMethodEv T2 ''onCotReceived'' ''(JLjava/lang/String;)V'' id2
            (string_to_jstring xml2)]"
    if h: "map_find (g_callbacks s) id2 = Some context2" "jvm context2 = Some vm2"
      "deref s (bridge_instance context2) = Some T2"
      "if t2 \<in> attached s then version_supported a2 else attach_status a2 = 0"
      "method_found a2"
    for t2 a2 id2 xml2 context2 vm2 T2
  proof -
    have 1: "map_find (g_callbacks s') id2 = Some context2"
      using h(1) same by simp
    have 3: "deref s' (bridge_instance context2) = Some T2"
      using h(3) deref_cong [OF same(4)] by simp
    have 4: "if t2 \<in> attached s' then version_supported a2 else attach_status a2 = 0"
      using h(4) same by simp
    from dispatch_calls [OF 1 h(2) 3 4 h(5), of xml2] show ?thesis
      by (auto simp: delivered_def)
  qed
  have unchanged: "isl (cot_callback_bridge t2 a2 id2 xml2 s') =
        isl (cot_callback_bridge t2 a2 id2 xml2 s) \<and>
      delivered s' (cot_callback_bridge t2 a2 id2 xml2 s') =
        delivered s (cot_callback_bridge t2 a2 id2 xml2 s)" for t2 a2 id2 xml2
  proof -
    have "deref s' = deref s"
      by (rule ext) (rule deref_cong [OF same(4)])
    then show ?thesis
      unfolding dispatch_summary same by (simp only:)
  qed
  from run tr ev pe same later unchanged show ?thesis
    by (auto simp: new_events_def)
qed

theorem callback_fault_contained_witness:
  "map_find (g_callbacks two_registered_state) 42 = Some \<lparr>jvm = Some 1, bridge_instance = 0\<rparr> \<and>
   deref two_registered_state 0 = Some 7 \<and>
   5 \<notin> attached two_registered_state \<and> attach_status vm_throws = 0 \<and> method_found vm_throws \<and>
   callback_throws vm_throws = Some (Thrown ''java.lang.IllegalStateException'') \<and>
   \<not> isl (cot_callback_bridge 5 vm_throws 42 (Some ''hello'') two_registered_state) \<and>
   pending (projr (cot_callback_bridge 5 vm_throws 42 (Some ''hello'') two_registered_state)) 5 =
     None \<and>
   g_callbacks (projr (cot_callback_bridge 5 vm_throws 42 (Some ''hello'') two_registered_state)) =
     g_callbacks two_registered_state \<and>
   delivered (projr (cot_callback_bridge 5 vm_throws 42 (Some ''hello'') two_registered_state))
     (cot_callback_bridge 0 vm_ok 43 (Some ''again'')
        (projr (cot_callback_bridge 5 vm_throws 42 (Some ''hello'') two_registered_state))) =
     [CallVoidMethodEv 8 ''onCotReceived'' ''(JLjava/lang/String;)V'' 43 (Some ''again'')]"
proof -
  let ?r = "cot_callback_bridge 5 vm_throws 42 (Some ''hello'') two_registered_state"
  have pre: "if 5 \<in> attached two_registered_state then version_supported vm_throws
             else attach_status vm_throws = 0"
    "method_found vm_throws"
    "callback_throws vm_throws = Some (Thrown ''java.lang.IllegalStateException'')"
    by (simp_all add: vm_throws_def vm_ok_def two_registered_state_fields)
  have pre2: "if 0 \<in> attached two_registered_state then version_supported vm_ok
              else attach_status vm_ok = 0" "method_found vm_ok"
    by (simp_all add: vm_ok_def two_registered_state_fields)
  have "map_find (g_callbacks two_registered_state) 42 = Some \<lparr>jvm = Some 1, bridge_instance = 0\<rparr>"
    "jvm \<lparr>jvm = Some 1, bridge_instance = 0\<rparr> = Some (1::nat)"
    "deref two_registered_state (bridge_instance \<lparr>jvm = Some 1, bridge_instance = 0\<rparr>) = Some 7"
    by (simp_all add: two_registered_entries)
  from callback_fault_contained [OF this pre, of "Some ''hello''"]
  obtain s' where s': "?r = Inr s'" "pending s' = (pending two_registered_state)(5 := None)"
    "g_callbacks s' = g_callbacks two_registered_state"
    and later: "\<forall>t2 a2 id2 xml2 context2 vm2 T2.
       map_find (g_callbacks two_registered_state) id2 = Some context2 \<and> jvm context2 = Some vm2 \<and>
       deref two_registered_state (bridge_instance context2) = Some T2 \<and>
       (if t2 \<in> attached two_registered_state then version_supported a2 else attach_status a2 = 0) \<and>
       method_found a2 \<longrightarrow>
       \<not> isl (cot_callback_bridge t2 a2 id2 xml2 s') \<and>
       delivered s' (cot_callback_bridge t2 a2 id2 xml2 s') =
         [CallVoidMethodEv T2 ''onCotReceived'' ''(JLjava/lang/String;)V'' id2
            (string_to_jstring xml2)]"
    by blast
  from later [rule_format, of 43 "\<lparr>jvm = Some 1, bridge_instance = 1\<rparr>" 1 8 0 vm_ok "Some ''again''"]
  have "delivered s' (cot_callback_bridge 0 vm_ok 43 (Some ''again'') s') =
         [CallVoidMethodEv 8 ''onCotReceived'' ''(JLjava/lang/String;)V'' 43 (Some ''again'')]"
    using pre2 two_registered_entries(4) by (simp add: two_registered_entries string_to_jstring_def)
  with s' pre show ?thesis
    by (simp add: two_registered_entries two_registered_state_fields)
qed

text \<open>
  C6. \<open>nativeShutdown\<close> leaves the registry empty, having deleted the reference of every
  entry once, in the order of the entries, so that none of them is live afterwards. A
  callback that runs next, for whatever identifier, thread and answers of the virtual
  machine, returns having written its two log lines around a lookup under the mutex
  that finds nothing, and nothing else. The same holds
  further on: any run of calls of the interface that follows the shutdown and registers
  nothing anew returns and calls no Java method.
\<close>

theorem shutdown_silences_dispatch:
  "g_callbacks (nativeShutdown s) = [] \<and>
   released (new_events s (nativeShutdown s)) = registry_refs s \<and>
   list_all (\<lambda>r. deref (nativeShutdown s) r = None) (registry_refs s) \<and>
   (\<forall>t a i x. cot_callback_bridge t a i x (nativeShutdown s) =
      Inr ((nativeShutdown s)\<lparr>trace := trace (nativeShutdown s) @
             [Log ANDROID_LOG_DEBUG ''CoT callback triggered for connection %llu'' [Num (uint i)],
              AcquireEv,
              LookupEv i None,
              Log ANDROID_LOG_ERROR ''No callback context found for connection %llu''
                [Num (uint i)],
              ReleaseEv]\<rparr>)) \<and>
   (\<forall>calls. list_all (\<lambda>c. \<not> is_register c) calls \<longrightarrow>
      \<not> isl (run calls (nativeShutdown s)) \<and>
      delivered (nativeShutdown s) (run calls (nativeShutdown s)) = [])"
proof (intro conjI allI impI)
  show e: "g_callbacks (nativeShutdown s) = []"
    by (simp add: nativeShutdown_fields)
  show "released (new_events s (nativeShutdown s)) = registry_refs s"
    by (simp add: new_events_def nativeShutdown_fields registry_refs_def)
  show "list_all (\<lambda>r. deref (nativeShutdown s) r = None) (registry_refs s)"
    by (simp add: list_all_iff nativeShutdown_deref)
  fix t a i x
  show "cot_callback_bridge t a i x (nativeShutdown s) =
      Inr ((nativeShutdown s)\<lparr>trace := trace (nativeShutdown s) @
             [Log ANDROID_LOG_DEBUG ''CoT callback triggered for connection %llu'' [Num (uint i)],
              AcquireEv,
              LookupEv i None,
              Log ANDROID_LOG_ERROR ''No callback context found for connection %llu''
                [Num (uint i)],
              ReleaseEv]\<rparr>)"
    using e by (simp add: cot_callback_bridge_def log_defs emit_def)
next
  fix calls
  assume d: "list_all (\<lambda>c. \<not> is_register c) calls"
  have e: "g_callbacks (nativeShutdown s) = []"
    by (simp add: nativeShutdown_fields)
  from run_on_empty_registry [OF d e] obtain s' evs where
    r: "run calls (nativeShutdown s) = Inr s'" "trace s' = trace (nativeShutdown s) @ evs"
      "invocations evs = []"
    by blast
  from r show "\<not> isl (run calls (nativeShutdown s))"
    by simp
  from r show "delivered (nativeShutdown s) (run calls (nativeShutdown s)) = []"
    by (simp add: delivered_def)
qed

theorem shutdown_silences_dispatch_witness:
  "registry_refs two_registered_state = [0, 1] \<and>
   g_callbacks (nativeShutdown two_registered_state) = [] \<and>
   released (new_events two_registered_state (nativeShutdown two_registered_state)) = [0, 1] \<and>
   list_all (\<lambda>c. \<not> is_register c)
     [CotCallback 5 vm_ok 42 (Some ''hello''), SendCot 43 (Some ''<event/>'') 0,
      CotCallback 0 vm_ok 43 (Some ''again'')] \<and>
   \<not> isl (run [CotCallback 5 vm_ok 42 (Some ''hello''), SendCot 43 (Some ''<event/>'') 0,
             CotCallback 0 vm_ok 43 (Some ''again'')]
            (nativeShutdown two_registered_state)) \<and>
   delivered (nativeShutdown two_registered_state)
     (run [CotCallback 5 vm_ok 42 (Some ''hello''), SendCot 43 (Some ''<event/>'') 0,
           CotCallback 0 vm_ok 43 (Some ''again'')]
        (nativeShutdown two_registered_state)) = []"
proof -
  let ?calls = "[CotCallback 5 vm_ok 42 (Some ''hello''), SendCot 43 (Some ''<event/>'') 0,
      CotCallback 0 vm_ok 43 (Some ''again'')]"
  have refs: "registry_refs two_registered_state = [0, 1]"
    by (simp add: registry_refs_def two_registered_state_fields)
  have d: "list_all (\<lambda>c. \<not> is_register c) ?calls"
    by simp
  note inst = shutdown_silences_dispatch [of two_registered_state]
  from inst have 1: "g_callbacks (nativeShutdown two_registered_state) = []"
    and 2: "released (new_events two_registered_state (nativeShutdown two_registered_state)) =
              registry_refs two_registered_state"
    by blast+
  from inst d have 3: "\<not> isl (run ?calls (nativeShutdown two_registered_state)) \<and>
      delivered (nativeShutdown two_registered_state)
        (run ?calls (nativeShutdown two_registered_state)) = []"
    by blast
  from refs d 1 2 3 show ?thesis
    by (simp only: simp_thms)
qed

text \<open>
  C7. On a well-formed registry that already has an entry for the identifier,
  \<open>nativeRegisterCallback\<close> replaces that entry by one holding \<open>g_jvm\<close> and a new global
  reference to the new object; the identifier still has exactly one entry. The old
  entry's reference is not deleted: it stays live, no entry holds it any more, and no
  later run of calls of the interface deletes it.
\<close>

theorem reregister_overwrites_and_leaks:
  assumes "registry_ok s" and "map_find (g_callbacks s) connectionId = Some old"
  shows "(let r = length (global_refs s);
              s' = snd (nativeRegisterCallback thiz connectionId result s)
          in map_find (g_callbacks s') connectionId = Some \<lparr>jvm = g_jvm s, bridge_instance = r\<rparr> \<and>
             length (filter (\<lambda>p. fst p = connectionId) (g_callbacks s')) = 1 \<and>
             deref s r = None \<and> deref s' r = Some thiz \<and> r \<noteq> bridge_instance old \<and>
             created (new_events s s') = [(r, thiz)] \<and>
             released (new_events s s') = [] \<and>
             deref s' (bridge_instance old) = deref s (bridge_instance old) \<and>
             leaked s' (bridge_instance old) \<and>
             (\<forall>calls s''. run calls s' = Inr s'' \<longrightarrow>
                leaked s'' (bridge_instance old) \<and>
                bridge_instance old \<notin> set (released (new_events s' s''))))"
proof -
  let ?r = "length (global_refs s)"
  let ?c = "\<lparr>jvm = g_jvm s, bridge_instance = ?r\<rparr>"
  let ?s' = "snd (nativeRegisterCallback thiz connectionId result s)"
  have mem: "(connectionId, old) \<in> set (g_callbacks s)"
    using assms(2) by (rule map_find_Some_mem)
  from registry_ok_live [OF assms(1) mem] have lt: "bridge_instance old < ?r"
    by simp
  from registry_ok_entry [OF assms] have live: "deref s (bridge_instance old) \<noteq> None"
    by simp
  have found: "map_find (g_callbacks ?s') connectionId = Some ?c"
    by (simp add: nativeRegisterCallback_fields map_find_assign)
  have ok': "registry_ok ?s'"
    using assms(1) by (rule registry_ok_register)
  then have "distinct (map fst (g_callbacks ?s'))"
    by (simp add: registry_ok_def sorted_keys_distinct)
  from one_entry_per_key [OF this found]
  have one: "length (filter (\<lambda>p. fst p = connectionId) (g_callbacks ?s')) = 1" .
  have new: "deref s ?r = None" "deref ?s' ?r = Some thiz"
    by (simp_all add: deref_def nativeRegisterCallback_fields)
  have evs: "created (new_events s ?s') = [(?r, thiz)]" "released (new_events s ?s') = []"
    by (simp_all add: new_events_def nativeRegisterCallback_fields)
  have keep: "deref ?s' (bridge_instance old) = deref s (bridge_instance old)"
    using lt by (simp add: deref_def nativeRegisterCallback_fields nth_append)
  have "bridge_instance old \<notin> set (registry_refs ?s')"
    using overwritten_ref_unreachable [OF assms, of ?c] lt
    by (simp add: registry_refs_def nativeRegisterCallback_fields)
  with keep live have leak: "leaked ?s' (bridge_instance old)"
    by (simp add: leaked_def)
  have later: "leaked s'' (bridge_instance old) \<and>
      bridge_instance old \<notin> set (released (new_events ?s' s''))"
    if "run calls ?s' = Inr s''" for calls s''
    using run_keeps_leaked [OF leak that] by (auto simp: new_events_def)
  from found one new lt evs keep leak later show ?thesis
    by (simp add: Let_def)
qed

theorem reregister_overwrites_and_leaks_witness:
  "registry_ok registered_state \<and>
   map_find (g_callbacks registered_state) 42 = Some \<lparr>jvm = Some 1, bridge_instance = 0\<rparr> \<and>
   map_find (g_callbacks (snd (nativeRegisterCallback 9 42 0 registered_state))) 42 =
     Some \<lparr>jvm = Some 1, bridge_instance = 1\<rparr> \<and>
   deref (snd (nativeRegisterCallback 9 42 0 registered_state)) 1 = Some 9 \<and>
   deref (snd (nativeRegisterCallback 9 42 0 registered_state)) 0 = Some 7 \<and>
   released (new_events registered_state (snd (nativeRegisterCallback 9 42 0 registered_state))) = [] \<and>
   leaked (snd (nativeRegisterCallback 9 42 0 registered_state)) 0"
  using reregister_overwrites_and_leaks [OF registry_ok_registered registered_entry(1), of 9 0]
    registry_ok_registered registered_entry
  by (simp add: Let_def registered_state_eq)

text \<open>
  C8, as amended. The claim as stated fails: \<open>nativeDisconnect\<close> for the identifier also
  erases the entry and deletes its reference (lines 224 to 233 of the source). Amended:
  on a well-formed registry with an entry for the identifier, every call of the
  interface returns; \<open>nativeUnregisterCallback\<close> and \<open>nativeDisconnect\<close> for that
  identifier and \<open>nativeShutdown\<close> remove the entry and delete its reference exactly
  once; every other call leaves the identifier with an entry (a new one after
  \<open>nativeRegisterCallback\<close> for the same identifier), does not delete the reference of
  the entry it found, and leaves that reference live.
\<close>

theorem entry_lifetime:
  assumes "registry_ok s" and "map_find (g_callbacks s) connection_id = Some context"
  shows "\<exists>s'. step c s = Inr s' \<and>
           (if destroys c connection_id
            then map_find (g_callbacks s') connection_id = None \<and>
                 count_list (released (new_events s s')) (bridge_instance context) = 1 \<and>
                 deref s' (bridge_instance context) = None
            else map_find (g_callbacks s') connection_id \<noteq> None \<and>
                 bridge_instance context \<notin> set (released (new_events s s')) \<and>
                 deref s' (bridge_instance context) = deref s (bridge_instance context))"
proof (cases c)
  case (OnLoad vm)
  with assms(2) show ?thesis
    using frame_traces(1) [of vm s]
    by (auto simp: JNI_OnLoad_fields new_events_def deref_cong [of "snd (JNI_OnLoad vm s)" s])
next
  case (Init r)
  with assms(2) show ?thesis
    using frame_traces(2) [of r s]
    by (auto simp: nativeInit_fields new_events_def deref_cong [of "snd (nativeInit r s)" s])
next
  case Shutdown
  have mem: "(connection_id, context) \<in> set (g_callbacks s)"
    using assms(2) by (rule map_find_Some_mem)
  then have "bridge_instance context \<in> set (registry_refs s)"
    by (force simp: registry_refs_def)
  moreover from assms(1) have "distinct (registry_refs s)"
    by (simp add: registry_ok_def)
  moreover have "released (new_events s (nativeShutdown s)) = registry_refs s"
    by (simp add: new_events_def nativeShutdown_fields registry_refs_def)
  ultimately show ?thesis
    using Shutdown
    by (simp add: nativeShutdown_fields nativeShutdown_deref count_list_distinct)
next
  case (Connect h p pr tls ce k ca r)
  with assms(2) show ?thesis
    by (simp add: nativeConnect_fields
        deref_cong [of "snd (nativeConnect h p pr tls ce k ca r s)" s])
next
  case (Disconnect i r)
  have "released (new_events s (snd (nativeDisconnect i r s))) =
       (case map_find (g_callbacks s) i of None \<Rightarrow> [] | Some c \<Rightarrow> [bridge_instance c])"
    by (simp add: new_events_def nativeDisconnect_fields split: option.splits)
  from erase_entry_effect [OF assms _ _ this] Disconnect show ?thesis
    by (simp add: nativeDisconnect_fields)
next
  case (SendCot i x r)
  with assms(2) show ?thesis
    by (simp add: nativeSendCot_fields deref_cong [of "snd (nativeSendCot i x r s)" s])
next
  case (RegisterCallback thiz i r)
  have mem: "(connection_id, context) \<in> set (g_callbacks s)"
    using assms(2) by (rule map_find_Some_mem)
  from registry_ok_live [OF assms(1) mem] have "bridge_instance context < length (global_refs s)"
    by simp
  with RegisterCallback assms(2) show ?thesis
    by (simp add: nativeRegisterCallback_fields map_find_assign new_events_def deref_def
        nth_append)
next
  case (UnregisterCallback i r)
  have "released (new_events s (snd (nativeUnregisterCallback i r s))) =
       (case map_find (g_callbacks s) i of None \<Rightarrow> [] | Some c \<Rightarrow> [bridge_instance c])"
    by (simp add: new_events_def nativeUnregisterCallback_fields split: option.splits)
  from erase_entry_effect [OF assms _ _ this] UnregisterCallback show ?thesis
    by (simp add: nativeUnregisterCallback_fields)
next
  case (GetStatus env i a)
  with assms(2) show ?thesis
    by (simp add: nativeGetStatus_fields deref_cong [of "snd (nativeGetStatus env i a s)" s])
next
  case (Version v)
  with assms(2) show ?thesis
    by (simp add: nativeVersion_fields deref_cong [of "snd (nativeVersion v s)" s])
next
  case (CotCallback t a i x)
  from dispatch_returns [OF assms(1), of t a i x] obtain s' where
    run: "cot_callback_bridge t a i x s = Inr s'"
    by (cases "cot_callback_bridge t a i x s") simp_all
  from dispatch_attachment [OF run] CotCallback run assms(2) show ?thesis
    by (auto simp: new_events_def deref_cong [of s' s])
qed

theorem entry_lifetime_witness:
  "registry_ok registered_state \<and>
   map_find (g_callbacks registered_state) 42 = Some \<lparr>jvm = Some 1, bridge_instance = 0\<rparr> \<and>
   destroys (Disconnect 42 0) 42 \<and>
   \<not> isl (step (Disconnect 42 0) registered_state) \<and>
   map_find (g_callbacks (projr (step (Disconnect 42 0) registered_state))) 42 = None \<and>
   count_list (released (new_events registered_state
      (projr (step (Disconnect 42 0) registered_state)))) 0 = 1 \<and>
   \<not> destroys (SendCot 42 (Some ''<event/>'') 0) 42 \<and>
   \<not> isl (step (SendCot 42 (Some ''<event/>'') 0) registered_state) \<and>
   map_find (g_callbacks (projr (step (SendCot 42 (Some ''<event/>'') 0) registered_state))) 42 \<noteq>
     None \<and>
   0 \<notin> set (released (new_events registered_state
      (projr (step (SendCot 42 (Some ''<event/>'') 0) registered_state)))) \<and>
   deref (projr (step (SendCot 42 (Some ''<event/>'') 0) registered_state)) 0 = Some 7"
  using entry_lifetime [OF registry_ok_registered registered_entry(1), of "Disconnect 42 0"]
    entry_lifetime [OF registry_ok_registered registered_entry(1),
      of "SendCot 42 (Some ''<event/>'') 0"]
    registry_ok_registered registered_entry
  by auto

text \<open>
  The claim C8 as stated is false at this input: with object 7 registered for connection
  42, \<open>nativeDisconnect\<close> for 42, which is neither \<open>nativeUnregisterCallback\<close> nor
  \<open>nativeShutdown\<close>, removes the entry and deletes its reference.
\<close>

theorem disconnect_destroys_entry_counterexample:
  "map_find (g_callbacks registered_state) 42 = Some \<lparr>jvm = Some 1, bridge_instance = 0\<rparr> \<and>
   deref registered_state 0 = Some 7 \<and>
   map_find (g_callbacks (snd (nativeDisconnect 42 0 registered_state))) 42 = None \<and>
   released (new_events registered_state (snd (nativeDisconnect 42 0 registered_state))) = [0] \<and>
   deref (snd (nativeDisconnect 42 0 registered_state)) 0 = None"
  by (simp add: registered_entry nativeDisconnect_fields new_events_def deref_def
      registered_state_eq)

text \<open>
  C9. Every call of the interface, whatever its arguments and the state it starts in,
  keeps the lock discipline of \<open>g_callbacks_mutex\<close> when it returns: it locks the mutex
  only when free and has unlocked it by the time it returns; every lookup in, store to,
  erasure from, scan of and clearing of the registry happens while it holds the mutex;
  and it calls none of \<open>AttachCurrentThread\<close>, \<open>CallVoidMethod\<close> and
  \<open>DetachCurrentThread\<close> while it holds the mutex. The registry it leaves is the
  registry it found with the stores, erasures and clearings of its trace applied in
  order, so the registry changes nowhere but at those events, under the mutex. A
  callback that returns has logged the call, locked the mutex and looked the identifier
  up in the registry it was given; then either it found nothing, logged that and
  unlocked, or it unlocked at once, and whatever it did afterwards (reading the
  environment, attaching, calling into Java, detaching) neither locks nor unlocks the
  mutex nor touches the registry: it works on the copy of the entry taken under the
  mutex. From a well-formed state every call returns. \<open>NewGlobalRef\<close> and
  \<open>DeleteGlobalRef\<close> are called while the mutex is held. Calls do not interleave in
  this embedding; that the critical sections of two threads exclude each other is what
  the mutex gives once every operation keeps this discipline.
\<close>

theorem lock_discipline:
  "(registry_ok s \<longrightarrow> \<not> isl (step c s)) \<and>
   (\<forall>s'. step c s = Inr s' \<longrightarrow>
      disciplined False (new_events s s') \<and>
      g_callbacks s' = replay (new_events s s') (g_callbacks s)) \<and>
   (\<forall>s'. cot_callback_bridge t a i x s = Inr s' \<longrightarrow>
      (\<exists>rest. new_events s s' =
          Log ANDROID_LOG_DEBUG ''CoT callback triggered for connection %llu'' [Num (uint i)] #
          AcquireEv # LookupEv i (map_find (g_callbacks s) i) #
          (case map_find (g_callbacks s) i of
             None \<Rightarrow>
               [Log ANDROID_LOG_ERROR ''No callback context found for connection %llu''
                  [Num (uint i)],
                ReleaseEv]
           | Some context \<Rightarrow> ReleaseEv # rest) \<and>
        list_all (\<lambda>ev. \<not> is_lock_event ev \<and> \<not> is_registry_access ev) rest))"
proof (intro conjI allI impI)
  assume "registry_ok s"
  from dispatch_returns [OF this] show "\<not> isl (step c s)"
    by (cases c) simp_all
next
  fix s'
  assume "step c s = Inr s'"
  then show "disciplined False (new_events s s')"
    by (simp add: step_disciplined)
next
  fix s'
  assume "step c s = Inr s'"
  then show "g_callbacks s' = replay (new_events s s') (g_callbacks s)"
    by (simp add: step_disciplined)
next
  fix s'
  assume "cot_callback_bridge t a i x s = Inr s'"
  then show "\<exists>rest. new_events s s' =
          Log ANDROID_LOG_DEBUG ''CoT callback triggered for connection %llu'' [Num (uint i)] #
          AcquireEv # LookupEv i (map_find (g_callbacks s) i) #
          (case map_find (g_callbacks s) i of
             None \<Rightarrow>
               [Log ANDROID_LOG_ERROR ''No callback context found for connection %llu''
                  [Num (uint i)],
                ReleaseEv]
           | Some context \<Rightarrow> ReleaseEv # rest) \<and>
        list_all (\<lambda>ev. \<not> is_lock_event ev \<and> \<not> is_registry_access ev) rest"
    by (rule dispatch_shape)
qed


theorem lock_discipline_witness:
  "registry_ok registered_state \<and>
   \<not> isl (step (UnregisterCallback 42 0) registered_state) \<and>
   new_events registered_state (projr (step (UnregisterCallback 42 0) registered_state)) =
     [Log ANDROID_LOG_INFO ''nativeUnregisterCallback called for connection %lld'' [Num 42],
      CoreEv (omnitak_unregister_callback 42),
      AcquireEv,
      LookupEv 42 (Some \<lparr>jvm = Some 1, bridge_instance = 0\<rparr>),
      DeleteGlobalRefEv 0,
      EraseEv 42,
      ReleaseEv] \<and>
   disciplined False
     (new_events registered_state (projr (step (UnregisterCallback 42 0) registered_state))) \<and>
   g_callbacks (projr (step (UnregisterCallback 42 0) registered_state)) =
     replay (new_events registered_state (projr (step (UnregisterCallback 42 0) registered_state)))
       (g_callbacks registered_state) \<and>
   g_callbacks (projr (step (UnregisterCallback 42 0) registered_state)) = [] \<and>
   \<not> isl (cot_callback_bridge 5 vm_ok 42 (Some ''hello'') registered_state) \<and>
   new_events registered_state
       (projr (cot_callback_bridge 5 vm_ok 42 (Some ''hello'') registered_state)) =
     [Log ANDROID_LOG_DEBUG ''CoT callback triggered for connection %llu'' [Num 42],
      AcquireEv,
      LookupEv 42 (Some \<lparr>jvm = Some 1, bridge_instance = 0\<rparr>),
      ReleaseEv,
      Log ANDROID_LOG_DEBUG ''Attaching to JVM for callback'' [],
      AttachEv 5,
      CallVoidMethodEv 7 ''onCotReceived'' ''(JLjava/lang/String;)V'' 42 (Some ''hello''),
      DetachEv 5]"
  using lock_discipline [of registered_state "UnregisterCallback 42 0" 5 vm_ok 42 "Some ''hello''"]
    registry_ok_registered
  by (simp add: nativeUnregisterCallback_fields registered_entry
      new_events_def cot_callback_bridge_def registered_state_eq deliver_def jni_defs log_defs
      vm_ok_def Let_def emit_def deref_def string_to_jstring_def)

text \<open>
  C10. When the core's \<open>omnitak_register_callback\<close> returns a nonzero status,
  \<open>nativeRegisterCallback\<close> returns that status; what it has done, in this order, is
  log the call, lock the mutex, create the global reference, store the entry in the
  registry, unlock the mutex, call the core and log the failure; it has deleted no
  reference and erased no entry. The state
  it leaves has the registry entry for the identifier, holding \<open>g_jvm\<close> and the new
  reference, which is live and refers to \<open>thiz\<close>.
\<close>

theorem register_failure_keeps_entry:
  assumes "result \<noteq> 0"
  shows "(let r = length (global_refs s);
              s' = snd (nativeRegisterCallback thiz connectionId result s)
          in fst (nativeRegisterCallback thiz connectionId result s) = result \<and>
             new_events s s' =
               [Log ANDROID_LOG_INFO ''nativeRegisterCallback called for connection %lld''
                  [Num (sint connectionId)],
                AcquireEv,
                NewGlobalRefEv r thiz,
                StoreEv connectionId \<lparr>jvm = g_jvm s, bridge_instance = r\<rparr>,
                ReleaseEv,
                CoreEv (omnitak_register_callback connectionId),
                Log ANDROID_LOG_ERROR ''Failed to register callback: %d'' [Num (sint result)]] \<and>
             map_find (g_callbacks s') connectionId =
               Some \<lparr>jvm = g_jvm s, bridge_instance = r\<rparr> \<and>
             deref s' r = Some thiz)"
  using assms
  by (simp add: Let_def nativeRegisterCallback_fields new_events_def map_find_assign deref_def)

theorem register_failure_keeps_entry_witness:
  "(- 1 :: int32_t) \<noteq> 0 \<and>
   fst (nativeRegisterCallback 7 42 (- 1) loaded_state) = - 1 \<and>
   new_events loaded_state (snd (nativeRegisterCallback 7 42 (- 1) loaded_state)) =
     [Log ANDROID_LOG_INFO ''nativeRegisterCallback called for connection %lld'' [Num 42],
      AcquireEv,
      NewGlobalRefEv 0 7,
      StoreEv 42 \<lparr>jvm = Some 1, bridge_instance = 0\<rparr>,
      ReleaseEv,
      CoreEv (omnitak_register_callback 42),
      Log ANDROID_LOG_ERROR ''Failed to register callback: %d'' [Num (- 1)]] \<and>
   map_find (g_callbacks (snd (nativeRegisterCallback 7 42 (- 1) loaded_state))) 42 =
     Some \<lparr>jvm = Some 1, bridge_instance = 0\<rparr> \<and>
   deref (snd (nativeRegisterCallback 7 42 (- 1) loaded_state)) 0 = Some 7"
  using register_failure_keeps_entry [of "- 1" loaded_state 7 42]
  by (simp add: Let_def loaded_state_eq)

end
